theory Spec2Isabelle
  imports Main
begin

section \<open>Values of the host language\<close>

text \<open>
  The program is TypeScript running on a single thread.  Objects live in a store and are
  passed by reference; a call may change the store and then throw, and the changes stay.
  Every operation is therefore a function from the state of the world to an outcome
  (normal return or thrown value) together with the state it leaves behind.
\<close>

type_synonym ref = nat

text \<open>The \<open>message\<close> argument of the logging entry points: \<open>undefined\<close>, \<open>null\<close> or an object.\<close>

datatype msgarg = Undefined | Null | Ref ref

text \<open>
  The \<open>properties\<close> member of a log message has type \<open>any\<close>.  What the code looks at is
  whether it is falsy, whether \<open>typeof\<close> gives \<open>"object"\<close>, and whether
  \<open>JSON.stringify\<close> accepts it.
\<close>

datatype jsprops =
    PUndefined
  | PNull
  | PPrimitive string               \<comment> \<open>a string primitive, \<open>typeof\<close> is not \<open>"object"\<close>\<close>
  | PObject "(string \<times> string) list" \<comment> \<open>a plain object with string members\<close>
  | PUnserializable                 \<comment> \<open>an object \<open>JSON.stringify\<close> rejects (a cyclic one)\<close>

datatype thrown =
    ThrownMessage msgarg            \<comment> \<open>\<open>throw message\<close> of the debug mode\<close>
  | ThrownError string              \<comment> \<open>an \<open>Error\<close> of the program or of the host\<close>

datatype 'a outcome = Returns 'a | Throws thrown

datatype LoggingSeverity = CRITICAL | WARNING

text \<open>\<open>class _InternalLogMessage\<close>; \<open>message\<close> is \<open>None\<close> when the member is \<open>undefined\<close>.\<close>

record InternalLogMessage =
  message :: "string option"
  properties :: jsprops

text \<open>
  A member of the host's \<open>console\<close>: either not a function, or a function whose call on a
  text returns or throws.
\<close>

datatype jsmethod = NotFunction | Function "string \<Rightarrow> thrown option"

datatype jsconsole = ConsoleUndefined | ConsoleNull | ConsoleObject jsmethod jsmethod

datatype channel = Warn | Log

text \<open>
  \<open>window.sessionStorage\<close>: the stored items and the two members the Ledger uses.  A
  member is \<open>None\<close> when it is \<open>null\<close> or \<open>undefined\<close>; otherwise it says for each
  call whether the call throws.
\<close>

record Storage =
  items :: "string \<rightharpoonup> string"
  getItem :: "(string \<Rightarrow> thrown option) option"
  setItem :: "(string \<Rightarrow> string \<Rightarrow> thrown option) option"

text \<open>
  The reporter (\<open>DataLossAnalyzer.appInsights\<close>): what \<open>trackTrace\<close> and \<open>flush\<close> do when
  called.  The calls made are recorded in the world.  The reporter is an external
  collaborator; it is taken not to write to the session storage or to the logging state.
\<close>

record Reporter =
  trackTrace :: "string \<Rightarrow> thrown option"
  flush :: "thrown option"

datatype reporter_call = TrackTrace string | Flush

text \<open>
  The whole mutable state: the static members of \<open>_InternalLogging\<close> and of
  \<open>DataLossAnalyzer\<close>, the object store, and the host.  The mode predicates
  \<open>enableDebugExceptions\<close> and \<open>verboseLogging\<close> are zero-argument functions in the source
  and are represented by the value they return.  Counters and limits are JavaScript
  numbers; they are integers here (no fractional limit, no \<open>NaN\<close>, exact arithmetic).
  \<open>render_json\<close> is the text \<open>JSON.stringify\<close> gives for a plain object, and
  \<open>getExceptionName\<close> and \<open>dump\<close> are the helpers of \<open>Util\<close>, which is not part of the
  sources at hand; all three are parameters.
\<close>

record world =
  enableDebugExceptions :: bool
  verboseLogging :: bool
  queue :: "msgarg list"
  MAX_INTERNAL_MESSAGE_LIMIT :: int
  messageCount :: int
  heap :: "ref \<Rightarrow> InternalLogMessage"
  next_ref :: ref
  console :: jsconsole
  console_calls :: "(channel \<times> string) list"
  render_json :: "(string \<times> string) list \<Rightarrow> string"
  enabled :: bool
  appInsights :: "Reporter option"
  sessionStorage :: "Storage option"
  LIMIT_PER_SESSION :: int
  reporter_calls :: "reporter_call list"
  getExceptionName :: "thrown \<Rightarrow> string"
  dump :: "thrown \<Rightarrow> string"

type_synonym 'a op = "world \<Rightarrow> 'a outcome \<times> world"

text \<open>Sequencing: the second statement runs only when the first returned.\<close>

definition seq :: "'a op \<Rightarrow> ('a \<Rightarrow> 'b op) \<Rightarrow> 'b op" where
  "seq f g w = (case f w of
       (Returns x, w') \<Rightarrow> g x w'
     | (Throws e, w') \<Rightarrow> (Throws e, w'))"

text \<open>\<open>try { f } catch (e) { h e }\<close>\<close>

definition try_catch :: "'a op \<Rightarrow> (thrown \<Rightarrow> 'a op) \<Rightarrow> 'a op" where
  "try_catch f h w = (case f w of
       (Returns x, w') \<Rightarrow> (Returns x, w')
     | (Throws e, w') \<Rightarrow> h e w')"

text \<open>
  \<open>try { f } finally { g }\<close>: \<open>g\<close> runs in either case; when it returns, the outcome of
  \<open>f\<close> stands, and when it throws, its exception replaces that outcome.
\<close>

definition try_finally :: "'a op \<Rightarrow> unit op \<Rightarrow> 'a op" where
  "try_finally f g w = (case f w of (r, w') \<Rightarrow>
     (case g w' of
        (Returns _, w'') \<Rightarrow> (r, w'')
      | (Throws e, w'') \<Rightarrow> (Throws e, w'')))"

section \<open>The diagnostic log: \<open>_InternalLogging\<close>\<close>

definition AiUserActionablePrefix :: string where
  "AiUserActionablePrefix = ''AI: ''"

definition AiNonUserActionablePrefix :: string where
  "AiNonUserActionablePrefix = ''AI (Internal): ''"

text \<open>\<open>typeof p === "object"\<close>; \<open>typeof null\<close> is \<open>"object"\<close> as well.\<close>

fun typeof_object :: "jsprops \<Rightarrow> bool" where
  "typeof_object PUndefined = False"
| "typeof_object PNull = True"
| "typeof_object (PPrimitive s) = False"
| "typeof_object (PObject kvs) = True"
| "typeof_object PUnserializable = True"

text \<open>\<open>!p\<close>: the falsy values among the ones modelled.\<close>

fun falsy :: "jsprops \<Rightarrow> bool" where
  "falsy PUndefined = True"
| "falsy PNull = True"
| "falsy (PPrimitive s) = (s = [])"
| "falsy (PObject kvs) = False"
| "falsy PUnserializable = False"

text \<open>
  \<open>JSON.stringify\<close>.  The program calls it only on values whose \<open>typeof\<close> is
  \<open>"object"\<close>, the first three equations; the last two are never reached.
\<close>

fun JSON_stringify :: "world \<Rightarrow> jsprops \<Rightarrow> thrown + string" where
  "JSON_stringify w PNull = Inr ''null''"
| "JSON_stringify w (PObject kvs) = Inr (render_json w kvs)"
| "JSON_stringify w PUnserializable = Inl (ThrownError ''TypeError'')"
| "JSON_stringify w (PPrimitive s) = Inr s"
| "JSON_stringify w PUndefined = Inr ''undefined''"

text \<open>
  \<open>new _InternalLogMessage(msg, properties)\<close>: a new object is allocated at \<open>next_ref\<close>.
\<close>

definition new_InternalLogMessage :: "string \<Rightarrow> jsprops \<Rightarrow> world \<Rightarrow> ref \<times> world" where
  "new_InternalLogMessage msg props w =
     (let obj = \<lparr> message = Some msg,
                  properties = (if props = PUndefined \<or> falsy props then PObject [] else props) \<rparr>
      in (next_ref w, w\<lparr> heap := (heap w)(next_ref w := obj), next_ref := Suc (next_ref w) \<rparr>))"

text \<open>A call of a console method: the call is recorded, then it returns or throws.\<close>

definition call_console :: "channel \<Rightarrow> (string \<Rightarrow> thrown option) \<Rightarrow> string \<Rightarrow> unit op" where
  "call_console ch f text w =
     (case f text of
        None \<Rightarrow> (Returns (), w\<lparr> console_calls := console_calls w @ [(ch, text)] \<rparr>)
      | Some e \<Rightarrow> (Throws e, w\<lparr> console_calls := console_calls w @ [(ch, text)] \<rparr>))"

definition warnToConsole :: "string \<Rightarrow> unit op" where
  "warnToConsole text w =
     (case console w of
        ConsoleUndefined \<Rightarrow> (Returns (), w)
      | ConsoleNull \<Rightarrow> (Returns (), w)
      | ConsoleObject cwarn clog \<Rightarrow>
          (case cwarn of
             Function f \<Rightarrow> call_console Warn f text w
           | NotFunction \<Rightarrow>
               (case clog of
                  Function g \<Rightarrow> call_console Log g text w
                | NotFunction \<Rightarrow> (Returns (), w))))"

definition resetInternalMessageCount :: "unit op" where
  "resetInternalMessageCount w = (Returns (), w\<lparr> messageCount := 0 \<rparr>)"

text \<open>\<open>!limit\<close> holds for \<open>0\<close> among the integers.\<close>

definition setMaxInternalMessageLimit :: "int \<Rightarrow> unit op" where
  "setMaxInternalMessageLimit limit w =
     (if limit = 0 then (Throws (ThrownError ''limit cannot be undefined.''), w)
      else (Returns (), w\<lparr> MAX_INTERNAL_MESSAGE_LIMIT := limit \<rparr>))"

definition areInternalMessagesThrottled :: "world \<Rightarrow> bool" where
  "areInternalMessagesThrottled w = (messageCount w \<ge> MAX_INTERNAL_MESSAGE_LIMIT w)"

definition throttleLimitMessage :: string where
  "throttleLimitMessage =
     AiNonUserActionablePrefix @ ''Internal events throttle limit per PageView reached for this app.''"

definition logInternalMessage :: "LoggingSeverity \<Rightarrow> msgarg \<Rightarrow> unit op" where
  "logInternalMessage severity m w =
     (if areInternalMessagesThrottled w then (Returns (), w)
      else
        let w1 = (if verboseLogging w \<or> severity = CRITICAL
                  then w\<lparr> queue := queue w @ [m], messageCount := messageCount w + 1 \<rparr>
                  else w)
        in if messageCount w1 = MAX_INTERNAL_MESSAGE_LIMIT w1
           then (case new_InternalLogMessage throttleLimitMessage PUndefined w1 of
                   (throttleMessage, w2) \<Rightarrow>
                     warnToConsole throttleLimitMessage
                       (w2\<lparr> queue := queue w2 @ [Ref throttleMessage] \<rparr>))
           else (Returns (), w1))"

text \<open>
  \<open>throwInternalNonUserActionable\<close> and \<open>throwInternalUserActionable\<close> have the same body
  up to the prefix; \<open>throwInternal\<close> is that body.
\<close>

definition throwInternal :: "string \<Rightarrow> LoggingSeverity \<Rightarrow> msgarg \<Rightarrow> unit op" where
  "throwInternal prefix severity m w =
     (if enableDebugExceptions w then (Throws (ThrownMessage m), w)
      else (case m of
          Undefined \<Rightarrow> (Returns (), w)
        | Null \<Rightarrow> (Returns (), w)
        | Ref r \<Rightarrow>
            (case message (heap w r) of
               None \<Rightarrow> (Returns (), w)
             | Some text \<Rightarrow>
                 let w1 = w\<lparr> heap := (heap w)(r := (heap w r)\<lparr> message := Some (prefix @ text) \<rparr>) \<rparr>
                 in if typeof_object (properties (heap w1 r))
                    then (case JSON_stringify w1 (properties (heap w1 r)) of
                            Inl e \<Rightarrow> (Throws e, w1)
                          | Inr js \<Rightarrow>
                              seq (warnToConsole (prefix @ text @ '' properties: '' @ js))
                                  (\<lambda>_. logInternalMessage severity m) w1)
                    else seq (warnToConsole (prefix @ text))
                             (\<lambda>_. logInternalMessage severity m) w1)))"

definition throwInternalNonUserActionable :: "LoggingSeverity \<Rightarrow> msgarg \<Rightarrow> unit op" where
  "throwInternalNonUserActionable = throwInternal AiNonUserActionablePrefix"

definition throwInternalUserActionable :: "LoggingSeverity \<Rightarrow> msgarg \<Rightarrow> unit op" where
  "throwInternalUserActionable = throwInternal AiUserActionablePrefix"

section \<open>Numbers in the session storage\<close>

text \<open>
  The counters are kept as strings.  \<open>+s\<close> converts a string (or \<open>null\<close>) to a number and
  \<open>n.toString()\<close> converts back.  JavaScript numbers are floating-point values; the
  model has the integers and \<open>NaN\<close>, and \<open>to_number\<close> is the reading of JavaScript on a
  part of the strings only: \<open>null\<close>, the empty string and ASCII white space give \<open>0\<close>, and
  an optional sign followed by decimal digits, with ASCII white space around it, gives
  that integer, exactly so while it is below \<open>2\<^sup>5\<^sup>3\<close> in magnitude.  Every other string is
  taken as \<open>NaN\<close>, which is the reading of JavaScript only when the string has a character
  that no numeric string contains.  On a string that JavaScript reads as a fraction,
  with an exponent, as a hexadecimal, octal or binary literal or as \<open>Infinity\<close>, or that
  has white space outside ASCII, \<open>to_number\<close> is not the reading of the code.  The
  predicate \<open>reads_exactly\<close> below singles out the stored values on which it is; every
  string the Ledger writes for an integer below \<open>2\<^sup>5\<^sup>3\<close> in magnitude is among them.
\<close>

datatype jsnum = NaN | Num int

definition isNaN :: "jsnum \<Rightarrow> bool" where
  "isNaN x = (x = NaN)"

text \<open>The ten decimal digits; the value of a digit is its place in the list.\<close>

definition decimal_digits :: string where
  "decimal_digits = ''0123456789''"

fun index_of :: "char \<Rightarrow> string \<Rightarrow> nat \<Rightarrow> nat option" where
  "index_of c [] i = None"
| "index_of c (x # xs) i = (if x = c then Some i else index_of c xs (Suc i))"

definition digit_value :: "char \<Rightarrow> nat option" where
  "digit_value c = index_of c decimal_digits 0"

definition digit_char :: "nat \<Rightarrow> char" where
  "digit_char d = decimal_digits ! (d mod 10)"

definition is_digit :: "char \<Rightarrow> bool" where
  "is_digit c = (digit_value c \<noteq> None)"

text \<open>White space: space, tab, line feed, vertical tab, form feed, carriage return.\<close>

definition is_space :: "char \<Rightarrow> bool" where
  "is_space c = (c = CHR '' '' \<or> c = CHR 0x09 \<or> c = CHR 0x0A \<or> c = CHR 0x0B
                 \<or> c = CHR 0x0C \<or> c = CHR 0x0D)"

definition trim :: "string \<Rightarrow> string" where
  "trim s = rev (dropWhile is_space (rev (dropWhile is_space s)))"

definition digits_value :: "string \<Rightarrow> nat" where
  "digits_value ds =
     foldl (\<lambda>acc c. acc * 10 + (case digit_value c of Some d \<Rightarrow> d | None \<Rightarrow> 0)) 0 ds"

definition unsigned_number :: "string \<Rightarrow> int \<Rightarrow> jsnum" where
  "unsigned_number ds sign =
     (if ds \<noteq> [] \<and> list_all is_digit ds then Num (sign * int (digits_value ds)) else NaN)"

definition to_number :: "string option \<Rightarrow> jsnum" where
  "to_number v =
     (case v of
        None \<Rightarrow> Num 0
      | Some s \<Rightarrow>
          (case trim s of
             [] \<Rightarrow> Num 0
           | c # cs \<Rightarrow>
               if c = CHR ''-'' then unsigned_number cs (- 1)
               else if c = CHR ''+'' then unsigned_number cs 1
               else unsigned_number (c # cs) 1))"

fun digits :: "nat \<Rightarrow> string" where
  "digits n = (if n < 10 then [digit_char n]
               else digits (n div 10) @ [digit_char (n mod 10)])"

declare digits.simps [simp del]

definition number_toString :: "int \<Rightarrow> string" where
  "number_toString i = (if i < 0 then CHR ''-'' # digits (nat (- i)) else digits (nat i))"

section \<open>The loss ledger: \<open>DataLossAnalyzer\<close>\<close>

definition ITEMS_QUEUED_KEY :: string where
  "ITEMS_QUEUED_KEY = ''AI_itemsQueued''"

definition ISSUES_REPORTED_KEY :: string where
  "ISSUES_REPORTED_KEY = ''AI_lossIssuesReported''"

definition isEnabled :: "world \<Rightarrow> bool" where
  "isEnabled w =
     (enabled w \<and> appInsights w \<noteq> None \<and>
      (case sessionStorage w of
         None \<Rightarrow> False
       | Some st \<Rightarrow> getItem st \<noteq> None \<and> setItem st \<noteq> None))"

text \<open>
  \<open>sessionStorage.getItem(key)\<close> and \<open>sessionStorage.setItem(key, value)\<close>.  Every call in
  the program is made after \<open>isEnabled()\<close> has held, so the storage and its members are
  there; on a missing storage or member the host raises a \<open>TypeError\<close>.
\<close>

definition sessionStorage_getItem :: "string \<Rightarrow> (string option) op" where
  "sessionStorage_getItem key w =
     (case sessionStorage w of
        None \<Rightarrow> (Throws (ThrownError ''TypeError''), w)
      | Some st \<Rightarrow>
          (case getItem st of
             None \<Rightarrow> (Throws (ThrownError ''TypeError''), w)
           | Some f \<Rightarrow>
               (case f key of
                  Some e \<Rightarrow> (Throws e, w)
                | None \<Rightarrow> (Returns (items st key), w))))"

definition sessionStorage_setItem :: "string \<Rightarrow> string \<Rightarrow> unit op" where
  "sessionStorage_setItem key v w =
     (case sessionStorage w of
        None \<Rightarrow> (Throws (ThrownError ''TypeError''), w)
      | Some st \<Rightarrow>
          (case setItem st of
             None \<Rightarrow> (Throws (ThrownError ''TypeError''), w)
           | Some f \<Rightarrow>
               (case f key v of
                  Some e \<Rightarrow> (Throws e, w)
                | None \<Rightarrow>
                    (Returns (), w\<lparr> sessionStorage := Some (st\<lparr> items := (items st)(key \<mapsto> v) \<rparr>) \<rparr>))))"

definition reset :: "unit op" where
  "reset w =
     (if isEnabled w then sessionStorage_setItem ITEMS_QUEUED_KEY ''0'' w
      else (Returns (), w))"

text \<open>
  \<open>isNaN(+getItem(key)) ? 0 : +getItem(key)\<close>: the item is read twice.  Nothing runs
  between the two reads, so the second gives the string of the first; the result is an
  integer.
\<close>

definition number_or_zero :: "string \<Rightarrow> int op" where
  "number_or_zero key =
     seq (sessionStorage_getItem key) (\<lambda>v.
       if isNaN (to_number v) then (\<lambda>w. (Returns 0, w))
       else seq (sessionStorage_getItem key) (\<lambda>v'.
              (\<lambda>w. (case to_number v' of Num n \<Rightarrow> (Returns n, w) | NaN \<Rightarrow> (Returns 0, w)))))"

definition getIssuesReported :: "int op" where
  "getIssuesReported w =
     (if \<not> isEnabled w then (Returns 0, w) else number_or_zero ISSUES_REPORTED_KEY w)"

definition getNumberOfLostItems :: "int op" where
  "getNumberOfLostItems =
     try_catch
       (\<lambda>w. if isEnabled w then number_or_zero ITEMS_QUEUED_KEY w else (Returns 0, w))
       (\<lambda>e w. (Returns 0, w))"

definition incrementItemsQueued :: "unit op" where
  "incrementItemsQueued =
     try_catch
       (\<lambda>w. if isEnabled w
            then seq getNumberOfLostItems (\<lambda>itemsQueued.
                   sessionStorage_setItem ITEMS_QUEUED_KEY (number_toString (itemsQueued + 1))) w
            else (Returns (), w))
       (\<lambda>e w. (Returns (), w))"

definition decrementItemsQueued :: "int \<Rightarrow> unit op" where
  "decrementItemsQueued countOfItemsSentSuccessfully =
     try_catch
       (\<lambda>w. if isEnabled w
            then seq getNumberOfLostItems (\<lambda>itemsQueued.
                   let itemsQueued1 = itemsQueued - countOfItemsSentSuccessfully;
                       itemsQueued2 = (if itemsQueued1 < 0 then 0 else itemsQueued1)
                   in sessionStorage_setItem ITEMS_QUEUED_KEY (number_toString itemsQueued2)) w
            else (Returns (), w))
       (\<lambda>e w. (Returns (), w))"

text \<open>The calls of the reporter: the call is recorded, then it returns or throws.\<close>

definition appInsights_trackTrace :: "string \<Rightarrow> unit op" where
  "appInsights_trackTrace text w =
     (case appInsights w of
        None \<Rightarrow> (Throws (ThrownError ''TypeError''), w)
      | Some r \<Rightarrow>
          (case trackTrace r text of
             None \<Rightarrow> (Returns (), w\<lparr> reporter_calls := reporter_calls w @ [TrackTrace text] \<rparr>)
           | Some e \<Rightarrow> (Throws e, w\<lparr> reporter_calls := reporter_calls w @ [TrackTrace text] \<rparr>)))"

definition appInsights_flush :: "unit op" where
  "appInsights_flush w =
     (case appInsights w of
        None \<Rightarrow> (Throws (ThrownError ''TypeError''), w)
      | Some r \<Rightarrow>
          (case flush r of
             None \<Rightarrow> (Returns (), w\<lparr> reporter_calls := reporter_calls w @ [Flush] \<rparr>)
           | Some e \<Rightarrow> (Throws e, w\<lparr> reporter_calls := reporter_calls w @ [Flush] \<rparr>)))"

text \<open>The text of the report: \<open>"AI (Internal): Internal report DATALOSS: " + n\<close>.\<close>

definition dataLossMessage :: "int \<Rightarrow> string" where
  "dataLossMessage n = ''AI (Internal): Internal report DATALOSS: '' @ number_toString n"

text \<open>The body of the \<open>try\<close> block of \<open>reportLostItems\<close>.\<close>

definition reportLostItems_try :: "unit op" where
  "reportLostItems_try w =
     (if \<not> isEnabled w then (Returns (), w)
      else seq getIssuesReported (\<lambda>issues.
        if \<not> issues < LIMIT_PER_SESSION w then (\<lambda>w'. (Returns (), w'))
        else seq getNumberOfLostItems (\<lambda>lost.
          if \<not> lost > 0 then (\<lambda>w'. (Returns (), w'))
          else seq getNumberOfLostItems (\<lambda>lost'.
            seq (appInsights_trackTrace (dataLossMessage lost')) (\<lambda>_.
            seq appInsights_flush (\<lambda>_.
            seq getIssuesReported (\<lambda>issuesReported.
              sessionStorage_setItem ISSUES_REPORTED_KEY
                (number_toString (issuesReported + 1)))))))) w)"

text \<open>The \<open>catch\<close> block of \<open>reportLostItems\<close>.\<close>

definition reportLostItems_catch :: "thrown \<Rightarrow> unit op" where
  "reportLostItems_catch e w =
     (case new_InternalLogMessage
             (''Failed to report data loss: '' @ getExceptionName w e)
             (PObject [(''exception'', dump w e)]) w of
        (m, w') \<Rightarrow> throwInternalNonUserActionable CRITICAL (Ref m) w')"

definition reportLostItems :: "unit op" where
  "reportLostItems =
     try_finally
       (try_catch reportLostItems_try reportLostItems_catch)
       (try_catch reset (\<lambda>e w. (Returns (), w)))"

section \<open>Clients of the log and the notions used in the statements\<close>

text \<open>
  A client calls the three entry points of the log.  \<open>run\<close> performs a list of calls one
  after the other, each on the state the previous one left behind; a call that throws
  leaves its state too, and the client goes on with the next call.
\<close>

datatype call =
    LogInternalMessage LoggingSeverity msgarg
  | ThrowInternalUserActionable LoggingSeverity msgarg
  | ThrowInternalNonUserActionable LoggingSeverity msgarg

fun perform :: "call \<Rightarrow> unit op" where
  "perform (LogInternalMessage s m) = logInternalMessage s m"
| "perform (ThrowInternalUserActionable s m) = throwInternalUserActionable s m"
| "perform (ThrowInternalNonUserActionable s m) = throwInternalNonUserActionable s m"

fun severity_of :: "call \<Rightarrow> LoggingSeverity" where
  "severity_of (LogInternalMessage s m) = s"
| "severity_of (ThrowInternalUserActionable s m) = s"
| "severity_of (ThrowInternalNonUserActionable s m) = s"

fun message_of :: "call \<Rightarrow> msgarg" where
  "message_of (LogInternalMessage s m) = m"
| "message_of (ThrowInternalUserActionable s m) = m"
| "message_of (ThrowInternalNonUserActionable s m) = m"

fun run :: "call list \<Rightarrow> world \<Rightarrow> world" where
  "run [] w = w"
| "run (c # cs) w = run cs (snd (perform c w))"

text \<open>
  The console is quiet when the method \<open>warnToConsole\<close> would call (\<open>warn\<close> if it is a
  function, else \<open>log\<close> if it is a function) never throws.  A missing console and a
  console without the two methods are quiet.
\<close>

definition console_quiet :: "world \<Rightarrow> bool" where
  "console_quiet w =
     (case console w of
        ConsoleObject (Function f) clog \<Rightarrow> (\<forall>t. f t = None)
      | ConsoleObject NotFunction (Function g) \<Rightarrow> (\<forall>t. g t = None)
      | _ \<Rightarrow> True)"

text \<open>
  A well-formed message is an allocated object whose \<open>message\<close> member is defined and
  whose \<open>properties\<close> \<open>JSON.stringify\<close> accepts.
\<close>

definition well_formed :: "world \<Rightarrow> msgarg \<Rightarrow> bool" where
  "well_formed w m =
     (case m of
        Ref r \<Rightarrow> r < next_ref w \<and> message (heap w r) \<noteq> None
                 \<and> properties (heap w r) \<noteq> PUnserializable
      | _ \<Rightarrow> False)"

text \<open>
  A call gets through to the throttled enqueue step when it is a direct call of
  \<open>logInternalMessage\<close>, or a call of one of the two \<open>throwInternal...\<close> entry points
  outside debug mode, on a well-formed message and with a quiet console.
\<close>

fun reaches_queue :: "world \<Rightarrow> call \<Rightarrow> bool" where
  "reaches_queue w (LogInternalMessage s m) = True"
| "reaches_queue w (ThrowInternalUserActionable s m) =
     (\<not> enableDebugExceptions w \<and> console_quiet w \<and> well_formed w m)"
| "reaches_queue w (ThrowInternalNonUserActionable s m) =
     (\<not> enableDebugExceptions w \<and> console_quiet w \<and> well_formed w m)"

text \<open>The entries one call of \<open>logInternalMessage\<close> appends to the queue.\<close>

definition log_entries :: "LoggingSeverity \<Rightarrow> msgarg \<Rightarrow> world \<Rightarrow> msgarg list" where
  "log_entries s m w =
     (if messageCount w \<ge> MAX_INTERNAL_MESSAGE_LIMIT w then []
      else if verboseLogging w \<or> s = CRITICAL
           then (if messageCount w + 1 = MAX_INTERNAL_MESSAGE_LIMIT w
                 then [m, Ref (next_ref w)] else [m])
           else [])"

text \<open>A call leaves the object at \<open>a\<close> alone when it is not a prefixing call on that object.\<close>

fun leaves :: "call \<Rightarrow> ref \<Rightarrow> bool" where
  "leaves (LogInternalMessage s m) a = True"
| "leaves (ThrowInternalUserActionable s m) a = (m \<noteq> Ref a)"
| "leaves (ThrowInternalNonUserActionable s m) a = (m \<noteq> Ref a)"

text \<open>
  Between two calls of the entry points a client may also change the limit, swap the two
  mode predicates, write to the console and make a new message, and a consumer may empty
  the queue (\<open>pollInteralLogs\<close> ends with \<open>queue.length = 0\<close>), and the counter may be
  reset.  \<open>run_actions\<close> performs such a list of actions.  On the way,
  \<open>queued_since_reset\<close> counts the entries the calls have appended to the queue since the
  last reset, and \<open>sentinels_since_reset\<close> counts the calls since then whose increment
  brought the counter to the limit in force; both start from a given number.
\<close>

datatype action =
    Call call
  | SetMaxInternalMessageLimit int
  | SetVerboseLogging bool
  | SetEnableDebugExceptions bool
  | WarnToConsole string
  | NewMessage string jsprops
  | ClearQueue
  | ResetInternalMessageCount

fun act :: "action \<Rightarrow> world \<Rightarrow> world" where
  "act (Call c) w = snd (perform c w)"
| "act (SetMaxInternalMessageLimit limit) w = snd (setMaxInternalMessageLimit limit w)"
| "act (SetVerboseLogging b) w = w\<lparr> verboseLogging := b \<rparr>"
| "act (SetEnableDebugExceptions b) w = w\<lparr> enableDebugExceptions := b \<rparr>"
| "act (WarnToConsole t) w = snd (warnToConsole t w)"
| "act (NewMessage msg props) w = snd (new_InternalLogMessage msg props w)"
| "act ClearQueue w = w\<lparr> queue := [] \<rparr>"
| "act ResetInternalMessageCount w = snd (resetInternalMessageCount w)"

fun run_actions :: "action list \<Rightarrow> world \<Rightarrow> world" where
  "run_actions [] w = w"
| "run_actions (a # as) w = run_actions as (act a w)"

fun appended :: "action \<Rightarrow> world \<Rightarrow> nat" where
  "appended (Call c) w = length (queue (snd (perform c w))) - length (queue w)"
| "appended a w = 0"

fun queued_since_reset :: "action list \<Rightarrow> world \<Rightarrow> nat \<Rightarrow> nat" where
  "queued_since_reset [] w k = k"
| "queued_since_reset (ResetInternalMessageCount # as) w k
     = queued_since_reset as (act ResetInternalMessageCount w) 0"
| "queued_since_reset (a # as) w k = queued_since_reset as (act a w) (k + appended a w)"

fun crossing :: "action \<Rightarrow> world \<Rightarrow> nat" where
  "crossing (Call c) w =
     (if messageCount (snd (perform c w)) = messageCount w + 1
         \<and> messageCount w + 1 = MAX_INTERNAL_MESSAGE_LIMIT w
      then 1 else 0)"
| "crossing a w = 0"

fun sentinels_since_reset :: "action list \<Rightarrow> world \<Rightarrow> nat \<Rightarrow> nat" where
  "sentinels_since_reset [] w k = k"
| "sentinels_since_reset (ResetInternalMessageCount # as) w k
     = sentinels_since_reset as (act ResetInternalMessageCount w) 0"
| "sentinels_since_reset (a # as) w k = sentinels_since_reset as (act a w) (k + crossing a w)"

text \<open>
  The queue length minus the counter, minus one more once the counter stands at the
  limit: the quantity no call changes while the limit stays.
\<close>

definition throttle_balance :: "world \<Rightarrow> int" where
  "throttle_balance w = int (length (queue w)) - messageCount w
      - (if messageCount w = MAX_INTERNAL_MESSAGE_LIMIT w then 1 else 0)"

text \<open>
  A concrete world: the static initialisers have run (\<open>enableDebugExceptions\<close> and
  \<open>verboseLogging\<close> return \<open>false\<close>, the queue is empty, the limit is 25, the counter is 0,
  the Ledger is off with a limit of 10 per session), the host has a console that accepts
  every line, and the client has made one message, \<open>new _InternalLogMessage("error!")\<close>, at
  address 0.
\<close>

definition page :: world where
  "page = \<lparr> enableDebugExceptions = False, verboseLogging = False, queue = [],
      MAX_INTERNAL_MESSAGE_LIMIT = 25, messageCount = 0,
      heap = (\<lambda>_. \<lparr> message = Some ''error!'', properties = PObject [] \<rparr>), next_ref = 1,
      console = ConsoleObject (Function (\<lambda>_. None)) (Function (\<lambda>_. None)), console_calls = [],
      render_json = (\<lambda>_. ''{}''),
      enabled = False, appInsights = None, sessionStorage = None, LIMIT_PER_SESSION = 10,
      reporter_calls = [], getExceptionName = (\<lambda>_. ''Error''), dump = (\<lambda>_. ''Error'') \<rparr>"

text \<open>A console method that throws on every line, and the page with such a \<open>warn\<close>.\<close>

definition failing_method :: "string \<Rightarrow> thrown option" where
  "failing_method t = Some (ThrownError ''console failed'')"

definition page_with_failing_console :: world where
  "page_with_failing_console = page\<lparr> console := ConsoleObject (Function failing_method) NotFunction \<rparr>"

section \<open>Clients of the ledger and the notions used in the statements\<close>

text \<open>The string kept under a key, and the world after a successful \<open>setItem\<close>.\<close>

definition stored :: "world \<Rightarrow> string \<Rightarrow> string option" where
  "stored w key = (case sessionStorage w of None \<Rightarrow> None | Some st \<Rightarrow> items st key)"

definition store_put :: "string \<Rightarrow> string \<Rightarrow> world \<Rightarrow> world" where
  "store_put key v w =
     (case sessionStorage w of
        None \<Rightarrow> w
      | Some st \<Rightarrow> w\<lparr> sessionStorage := Some (st\<lparr> items := (items st)(key \<mapsto> v) \<rparr>) \<rparr>)"

text \<open>
  The integers a JavaScript number holds exactly, and the characters that can occur in a
  string JavaScript reads as a number: digits, signs, the point, the letters of an
  exponent, of \<open>Infinity\<close> and of the hexadecimal, octal and binary literals, ASCII white
  space, and any byte outside ASCII (which may belong to a white-space character).
\<close>

definition safe_integer :: "int \<Rightarrow> bool" where
  "safe_integer n = (- (2 ^ 53) < n \<and> n < 2 ^ 53)"

definition numeric_char :: "char \<Rightarrow> bool" where
  "numeric_char c =
     (c \<in> set ''0123456789+-.eEInfityxXoObBabcdfACDF'' \<or> is_space c \<or> digit7 c)"

text \<open>
  A stored value (\<open>None\<close> when the key is absent) on which \<open>to_number\<close> is the reading of
  JavaScript: it is read as an integer that a number holds exactly, or it is read as
  \<open>NaN\<close> and has a character that no numeric string contains.
\<close>

definition reads_exactly :: "string option \<Rightarrow> bool" where
  "reads_exactly v =
     (case to_number v of
        Num n \<Rightarrow> safe_integer n
      | NaN \<Rightarrow> (case v of None \<Rightarrow> False | Some s \<Rightarrow> list_ex (\<lambda>c. \<not> numeric_char c) s))"

text \<open>The number a counter stands for: \<open>isNaN(+v) ? 0 : +v\<close> of the stored string.\<close>

definition counter_value :: "world \<Rightarrow> string \<Rightarrow> int" where
  "counter_value w key = (case to_number (stored w key) of NaN \<Rightarrow> 0 | Num n \<Rightarrow> n)"

text \<open>A backend whose \<open>getItem\<close> and \<open>setItem\<close> never throw; a reporter that never throws.\<close>

definition backend_quiet :: "world \<Rightarrow> bool" where
  "backend_quiet w =
     (case sessionStorage w of
        None \<Rightarrow> True
      | Some st \<Rightarrow>
          (case getItem st of None \<Rightarrow> True | Some f \<Rightarrow> \<forall>k. f k = None)
        \<and> (case setItem st of None \<Rightarrow> True | Some g \<Rightarrow> \<forall>k v. g k v = None))"

definition reporter_quiet :: "world \<Rightarrow> bool" where
  "reporter_quiet w =
     (case appInsights w of
        None \<Rightarrow> True
      | Some r \<Rightarrow> (\<forall>t. trackTrace r t = None) \<and> flush r = None)"

text \<open>The same operation called \<open>n\<close> times in a row.\<close>

fun repeat_op :: "nat \<Rightarrow> unit op \<Rightarrow> world \<Rightarrow> world" where
  "repeat_op 0 f w = w"
| "repeat_op (Suc n) f w = repeat_op n f (snd (f w))"



text \<open>
  Concrete worlds for the Ledger.  In \<open>session\<close> the Ledger is on, the reporter and the
  storage accept every call, three items are queued and two issues have been reported.
  The other worlds differ from it in one collaborator that throws on every call, in the
  debug switch, and (the idle session) in having nothing queued.
\<close>

definition quiet_getItem :: "string \<Rightarrow> thrown option" where
  "quiet_getItem key = None"

definition quiet_setItem :: "string \<Rightarrow> string \<Rightarrow> thrown option" where
  "quiet_setItem key v = None"

definition failing_getItem :: "string \<Rightarrow> thrown option" where
  "failing_getItem key = Some (ThrownError ''storage failed'')"

definition failing_setItem :: "string \<Rightarrow> string \<Rightarrow> thrown option" where
  "failing_setItem key v = Some (ThrownError ''storage failed'')"

definition quiet_trackTrace :: "string \<Rightarrow> thrown option" where
  "quiet_trackTrace t = None"

definition failing_trackTrace :: "string \<Rightarrow> thrown option" where
  "failing_trackTrace t = Some (ThrownError ''report failed'')"

definition session :: world where
  "session = page\<lparr> enabled := True,
      appInsights := Some \<lparr> trackTrace = quiet_trackTrace, flush = None \<rparr>,
      sessionStorage := Some \<lparr> items = [ITEMS_QUEUED_KEY \<mapsto> ''3'', ISSUES_REPORTED_KEY \<mapsto> ''2''],
                                 getItem = Some quiet_getItem, setItem = Some quiet_setItem \<rparr> \<rparr>"


definition session_with_failing_reporter :: world where
  "session_with_failing_reporter =
     session\<lparr> appInsights := Some \<lparr> trackTrace = failing_trackTrace, flush = None \<rparr> \<rparr>"

definition session_with_failing_storage :: world where
  "session_with_failing_storage =
     session\<lparr> sessionStorage := Some \<lparr> items = Map.empty,
                                        getItem = Some failing_getItem, setItem = Some failing_setItem \<rparr> \<rparr>"



section \<open>The diagnostic log: what a call does\<close>

lemma warnToConsole_fields [simp]:
  "queue (snd (warnToConsole t w)) = queue w"
  "messageCount (snd (warnToConsole t w)) = messageCount w"
  "MAX_INTERNAL_MESSAGE_LIMIT (snd (warnToConsole t w)) = MAX_INTERNAL_MESSAGE_LIMIT w"
  "heap (snd (warnToConsole t w)) = heap w"
  "next_ref (snd (warnToConsole t w)) = next_ref w"
  "verboseLogging (snd (warnToConsole t w)) = verboseLogging w"
  "enableDebugExceptions (snd (warnToConsole t w)) = enableDebugExceptions w"
  "console (snd (warnToConsole t w)) = console w"
  by (simp_all add: warnToConsole_def call_console_def split: jsconsole.splits jsmethod.splits option.splits)

lemma warnToConsole_quiet: "console_quiet w \<Longrightarrow> fst (warnToConsole t w) = Returns ()"
  by (simp add: warnToConsole_def call_console_def console_quiet_def split: jsconsole.splits jsmethod.splits option.splits)

lemmas log_defs = logInternalMessage_def areInternalMessagesThrottled_def Let_def new_InternalLogMessage_def

lemma logInternalMessage_queue:
  "queue (snd (logInternalMessage s m w)) = queue w @ log_entries s m w"
  by (simp add: log_defs log_entries_def)

lemma logInternalMessage_count:
  "messageCount (snd (logInternalMessage s m w)) =
     (if messageCount w < MAX_INTERNAL_MESSAGE_LIMIT w \<and> (verboseLogging w \<or> s = CRITICAL)
      then messageCount w + 1 else messageCount w)"
  by (simp add: log_defs)

lemma logInternalMessage_fields [simp]:
  "MAX_INTERNAL_MESSAGE_LIMIT (snd (logInternalMessage s m w)) = MAX_INTERNAL_MESSAGE_LIMIT w"
  "verboseLogging (snd (logInternalMessage s m w)) = verboseLogging w"
  "enableDebugExceptions (snd (logInternalMessage s m w)) = enableDebugExceptions w"
  "console (snd (logInternalMessage s m w)) = console w"
  by (simp_all add: log_defs)

lemma logInternalMessage_next_ref:
  "next_ref (snd (logInternalMessage s m w)) =
     (if log_entries s m w = [m, Ref (next_ref w)] then Suc (next_ref w) else next_ref w)"
  by (simp add: log_defs log_entries_def)

lemma logInternalMessage_heap:
  "heap (snd (logInternalMessage s m w)) =
     (if log_entries s m w = [m, Ref (next_ref w)]
      then (heap w)(next_ref w := \<lparr> message = Some throttleLimitMessage, properties = PObject [] \<rparr>)
      else heap w)"
  by (simp add: log_defs log_entries_def)

lemma log_entries_cong [simp]:
  "log_entries s m (snd (warnToConsole t w)) = log_entries s m w"
  "log_entries s m (w\<lparr> heap := h \<rparr>) = log_entries s m w"
  by (simp_all add: log_entries_def)

text \<open>The five ways a call of \<open>throwInternal\<close> can go.\<close>

lemma throwInternal_cases:
  obtains
    (debug) "enableDebugExceptions w" "throwInternal p s m w = (Throws (ThrownMessage m), w)"
  | (degenerate) "\<not> enableDebugExceptions w" "throwInternal p s m w = (Returns (), w)"
       "m = Undefined \<or> m = Null \<or> (\<exists>r. m = Ref r \<and> message (heap w r) = None)"
  | (stringify) r body e where "\<not> enableDebugExceptions w" "m = Ref r" "message (heap w r) = Some body"
       "properties (heap w r) = PUnserializable"
       "throwInternal p s m w =
          (Throws e, w\<lparr> heap := (heap w)(r := (heap w r)\<lparr> message := Some (p @ body) \<rparr>) \<rparr>)"
  | (console) r body t e where "\<not> enableDebugExceptions w" "m = Ref r" "message (heap w r) = Some body"
       "properties (heap w r) \<noteq> PUnserializable" "\<not> console_quiet w"
       "throwInternal p s m w =
          (Throws e, snd (warnToConsole t
             (w\<lparr> heap := (heap w)(r := (heap w r)\<lparr> message := Some (p @ body) \<rparr>) \<rparr>)))"
  | (logged) r body t where "\<not> enableDebugExceptions w" "m = Ref r" "message (heap w r) = Some body"
       "properties (heap w r) \<noteq> PUnserializable"
       "throwInternal p s m w =
          logInternalMessage s m (snd (warnToConsole t
             (w\<lparr> heap := (heap w)(r := (heap w r)\<lparr> message := Some (p @ body) \<rparr>) \<rparr>)))"
proof (cases "enableDebugExceptions w")
  case True
  then show ?thesis using debug by (simp add: throwInternal_def)
next
  case nd: False
  show ?thesis
  proof (cases "\<exists>r body. m = Ref r \<and> message (heap w r) = Some body")
    case False
    then have "throwInternal p s m w = (Returns (), w)"
      using nd by (auto simp: throwInternal_def split: msgarg.splits option.splits)
    moreover have "m = Undefined \<or> m = Null \<or> (\<exists>r. m = Ref r \<and> message (heap w r) = None)"
      using False by (cases m) auto
    ultimately show ?thesis using degenerate nd by blast
  next
    case True
    then obtain r body where m: "m = Ref r" and msg: "message (heap w r) = Some body" by blast
    define w1 where "w1 = w\<lparr> heap := (heap w)(r := (heap w r)\<lparr> message := Some (p @ body) \<rparr>) \<rparr>"
    have quiet_throws: "\<not> console_quiet w" if "fst (warnToConsole t w1) = Throws e" for t e
      using that warnToConsole_quiet [of w1 t] by (auto simp: console_quiet_def w1_def)
    have step: thesis if "throwInternal p s m w = seq (warnToConsole t) (\<lambda>_. logInternalMessage s m) w1"
      and ser: "properties (heap w r) \<noteq> PUnserializable" for t
    proof (cases "warnToConsole t w1")
      case (Pair res w2)
      then have w2: "w2 = snd (warnToConsole t w1)" by simp
      show ?thesis
      proof (cases res)
        case (Returns u)
        with that(1) Pair have "throwInternal p s m w = logInternalMessage s m w2"
          by (simp add: seq_def)
        then show ?thesis
          by (intro logged [OF nd m msg ser, of t]) (simp add: w2 w1_def)
      next
        case (Throws e)
        with that(1) Pair have "throwInternal p s m w = (Throws e, w2)"
          by (simp add: seq_def)
        moreover have "\<not> console_quiet w"
          using quiet_throws [of t e] Pair Throws by simp
        ultimately show ?thesis
          by (intro console [OF nd m msg ser, of e t]) (simp_all add: w2 w1_def)
      qed
    qed
    show ?thesis
    proof (cases "properties (heap w r)")
      case PUnserializable
      then show ?thesis using stringify [OF nd m msg] nd m msg
        by (simp add: throwInternal_def)
    next
      case PUndefined
      then show ?thesis using step [of "p @ body"] nd m msg
        by (simp add: throwInternal_def w1_def)
    next
      case PNull
      then show ?thesis using step [of "p @ body @ '' properties: '' @ ''null''"] nd m msg
        by (simp add: throwInternal_def w1_def)
    next
      case (PPrimitive x)
      then show ?thesis using step [of "p @ body"] nd m msg
        by (simp add: throwInternal_def w1_def)
    next
      case (PObject kvs)
      then show ?thesis
        using step [of "p @ body @ '' properties: '' @ render_json w kvs"] nd m msg
        by (simp add: throwInternal_def w1_def)
    qed
  qed
qed

lemma throwInternal_fields [simp]:
  "MAX_INTERNAL_MESSAGE_LIMIT (snd (throwInternal p s m w)) = MAX_INTERNAL_MESSAGE_LIMIT w"
  "verboseLogging (snd (throwInternal p s m w)) = verboseLogging w"
  "enableDebugExceptions (snd (throwInternal p s m w)) = enableDebugExceptions w"
  "console (snd (throwInternal p s m w)) = console w"
  by (cases rule: throwInternal_cases [where w = w and p = p and s = s and m = m]; simp)+

lemma throwInternal_reaches:
  assumes "\<not> enableDebugExceptions w" "console_quiet w" "well_formed w m"
  obtains t h where
    "throwInternal p s m w = logInternalMessage s m (snd (warnToConsole t (w\<lparr> heap := h \<rparr>)))"
proof (cases rule: throwInternal_cases [where w = w and p = p and s = s and m = m])
  case (logged r body t)
  then show ?thesis using that by blast
qed (use assms in \<open>auto simp: well_formed_def\<close>)

lemma perform_fields [simp]:
  "MAX_INTERNAL_MESSAGE_LIMIT (snd (perform c w)) = MAX_INTERNAL_MESSAGE_LIMIT w"
  "verboseLogging (snd (perform c w)) = verboseLogging w"
  "enableDebugExceptions (snd (perform c w)) = enableDebugExceptions w"
  "console (snd (perform c w)) = console w"
  by (cases c; simp add: throwInternalUserActionable_def throwInternalNonUserActionable_def)+

lemma perform_reaches_obtain:
  assumes "reaches_queue w c"
  obtains w0 where "perform c w = logInternalMessage (severity_of c) (message_of c) w0"
    "queue w0 = queue w" "messageCount w0 = messageCount w" "next_ref w0 = next_ref w"
    "MAX_INTERNAL_MESSAGE_LIMIT w0 = MAX_INTERNAL_MESSAGE_LIMIT w"
    "verboseLogging w0 = verboseLogging w"
proof (cases c)
  case (LogInternalMessage s m)
  then show ?thesis using that [of w] by simp
next
  case (ThrowInternalUserActionable s m)
  with assms obtain t h where
    "throwInternal AiUserActionablePrefix s m w = logInternalMessage s m (snd (warnToConsole t (w\<lparr> heap := h \<rparr>)))"
    using throwInternal_reaches [of w m AiUserActionablePrefix s] by auto
  then show ?thesis
    using that [of "snd (warnToConsole t (w\<lparr> heap := h \<rparr>))"] ThrowInternalUserActionable
    by (simp add: throwInternalUserActionable_def)
next
  case (ThrowInternalNonUserActionable s m)
  with assms obtain t h where
    "throwInternal AiNonUserActionablePrefix s m w = logInternalMessage s m (snd (warnToConsole t (w\<lparr> heap := h \<rparr>)))"
    using throwInternal_reaches [of w m AiNonUserActionablePrefix s] by auto
  then show ?thesis
    using that [of "snd (warnToConsole t (w\<lparr> heap := h \<rparr>))"] ThrowInternalNonUserActionable
    by (simp add: throwInternalNonUserActionable_def)
qed

lemma log_entries_eq:
  assumes "queue w0 = queue w" "messageCount w0 = messageCount w" "next_ref w0 = next_ref w"
    "MAX_INTERNAL_MESSAGE_LIMIT w0 = MAX_INTERNAL_MESSAGE_LIMIT w" "verboseLogging w0 = verboseLogging w"
  shows "log_entries s m w0 = log_entries s m w"
  using assms by (simp add: log_entries_def)

lemma perform_reaches_queue:
  assumes "reaches_queue w c"
  shows "queue (snd (perform c w)) = queue w @ log_entries (severity_of c) (message_of c) w"
    and "messageCount (snd (perform c w)) =
          (if messageCount w < MAX_INTERNAL_MESSAGE_LIMIT w \<and> (verboseLogging w \<or> severity_of c = CRITICAL)
           then messageCount w + 1 else messageCount w)"
    and "next_ref (snd (perform c w)) =
          (if log_entries (severity_of c) (message_of c) w = [message_of c, Ref (next_ref w)]
           then Suc (next_ref w) else next_ref w)"
proof -
  from assms obtain w0 where w0: "perform c w = logInternalMessage (severity_of c) (message_of c) w0"
    "queue w0 = queue w" "messageCount w0 = messageCount w" "next_ref w0 = next_ref w"
    "MAX_INTERNAL_MESSAGE_LIMIT w0 = MAX_INTERNAL_MESSAGE_LIMIT w"
    "verboseLogging w0 = verboseLogging w"
    by (rule perform_reaches_obtain)
  have le: "log_entries (severity_of c) (message_of c) w0 = log_entries (severity_of c) (message_of c) w"
    using w0(2-6) by (rule log_entries_eq)
  show "queue (snd (perform c w)) = queue w @ log_entries (severity_of c) (message_of c) w"
    using w0 le by (simp add: logInternalMessage_queue)
  show "messageCount (snd (perform c w)) =
          (if messageCount w < MAX_INTERNAL_MESSAGE_LIMIT w \<and> (verboseLogging w \<or> severity_of c = CRITICAL)
           then messageCount w + 1 else messageCount w)"
    using w0 by (simp add: logInternalMessage_count)
  show "next_ref (snd (perform c w)) =
          (if log_entries (severity_of c) (message_of c) w = [message_of c, Ref (next_ref w)]
           then Suc (next_ref w) else next_ref w)"
    using w0 le by (simp add: logInternalMessage_next_ref)
qed

lemma logInternalMessage_heap_allocated:
  "a < next_ref w \<Longrightarrow> heap (snd (logInternalMessage s m w)) a = heap w a"
  by (simp add: logInternalMessage_heap)

lemma logInternalMessage_next_ref_mono:
  "next_ref w \<le> next_ref (snd (logInternalMessage s m w))"
  by (simp add: logInternalMessage_next_ref)

lemma throwInternal_next_ref_mono:
  "next_ref w \<le> next_ref (snd (throwInternal p s m w))"
proof (cases rule: throwInternal_cases [where w = w and p = p and s = s and m = m])
  case (logged r body t)
  then show ?thesis
    using logInternalMessage_next_ref_mono
      [of "snd (warnToConsole t (w\<lparr> heap := (heap w)(r := (heap w r)\<lparr> message := Some (p @ body) \<rparr>) \<rparr>))" s m]
    by simp
qed simp_all

text \<open>The text of the message after a call that is not in debug mode.\<close>

lemma throwInternal_prefixes:
  assumes "\<not> enableDebugExceptions w" "r < next_ref w" "message (heap w r) = Some body"
  shows "message (heap (snd (throwInternal p s (Ref r) w)) r) = Some (p @ body)"
proof (cases rule: throwInternal_cases [where w = w and p = p and s = s and m = "Ref r"])
  case (logged r' body' t)
  then show ?thesis using assms by (simp add: logInternalMessage_heap_allocated)
qed (use assms in auto)

lemma throwInternal_heap_other:
  assumes "a < next_ref w" "m \<noteq> Ref a"
  shows "heap (snd (throwInternal p s m w)) a = heap w a"
proof (cases rule: throwInternal_cases [where w = w and p = p and s = s and m = m])
  case (logged r' body' t)
  then show ?thesis using assms by (simp add: logInternalMessage_heap_allocated)
qed (use assms in auto)

lemma throwInternal_heap_kept:
  assumes "a < next_ref w"
  shows "properties (heap (snd (throwInternal p s m w)) a) = properties (heap w a)"
    and "message (heap w a) \<noteq> None \<Longrightarrow> message (heap (snd (throwInternal p s m w)) a) \<noteq> None"
proof -
  have "properties (heap (snd (throwInternal p s m w)) a) = properties (heap w a)
      \<and> (message (heap w a) \<noteq> None \<longrightarrow> message (heap (snd (throwInternal p s m w)) a) \<noteq> None)"
  proof (cases rule: throwInternal_cases [where w = w and p = p and s = s and m = m])
    case (logged r' body' t)
    then show ?thesis using assms by (simp add: logInternalMessage_heap_allocated)
  qed (use assms in auto)
  then show "properties (heap (snd (throwInternal p s m w)) a) = properties (heap w a)"
    and "message (heap w a) \<noteq> None \<Longrightarrow> message (heap (snd (throwInternal p s m w)) a) \<noteq> None"
    by simp_all
qed

lemma perform_next_ref_mono: "next_ref w \<le> next_ref (snd (perform c w))"
  by (cases c)
     (simp_all add: logInternalMessage_next_ref_mono throwInternal_next_ref_mono
        throwInternalUserActionable_def throwInternalNonUserActionable_def)

lemma perform_heap_other:
  "a < next_ref w \<Longrightarrow> message_of c \<noteq> Ref a \<Longrightarrow> heap (snd (perform c w)) a = heap w a"
  by (cases c)
     (simp_all add: logInternalMessage_heap_allocated throwInternal_heap_other
        throwInternalUserActionable_def throwInternalNonUserActionable_def)

lemma perform_well_formed:
  assumes "well_formed w m"
  shows "well_formed (snd (perform c w)) m"
proof -
  from assms obtain r where m: "m = Ref r" and r: "r < next_ref w"
    and msg: "message (heap w r) \<noteq> None" and ser: "properties (heap w r) \<noteq> PUnserializable"
    by (auto simp: well_formed_def split: msgarg.splits)
  have "r < next_ref (snd (perform c w))"
    using r perform_next_ref_mono [of w c] by simp
  moreover have "message (heap (snd (perform c w)) r) \<noteq> None
       \<and> properties (heap (snd (perform c w)) r) \<noteq> PUnserializable"
    using r msg ser
    by (cases c)
       (simp_all add: logInternalMessage_heap_allocated throwInternal_heap_kept
          throwInternalUserActionable_def throwInternalNonUserActionable_def)
  ultimately show ?thesis by (simp add: well_formed_def m)
qed

lemma perform_reaches_kept:
  "reaches_queue w c' \<Longrightarrow> reaches_queue (snd (perform c w)) c'"
  by (cases c') (simp_all add: perform_well_formed console_quiet_def)

lemma reaches_leaves: "reaches_queue w c \<Longrightarrow> next_ref w \<le> a \<Longrightarrow> leaves c a"
  by (cases c) (auto simp: well_formed_def)

lemma perform_heap_leaves:
  "a < next_ref w \<Longrightarrow> leaves c a \<Longrightarrow> heap (snd (perform c w)) a = heap w a"
  by (cases c)
     (simp_all add: logInternalMessage_heap_allocated throwInternal_heap_other
        throwInternalUserActionable_def throwInternalNonUserActionable_def)

lemma run_heap_leaves:
  "a < next_ref w \<Longrightarrow> \<forall>c\<in>set cs. leaves c a \<Longrightarrow> heap (run cs w) a = heap w a"
proof (induction cs arbitrary: w)
  case Nil
  then show ?case by simp
next
  case (Cons c cs)
  have "a < next_ref (snd (perform c w))"
    using Cons.prems(1) perform_next_ref_mono [of w c] by simp
  then have "heap (run cs (snd (perform c w))) a = heap (snd (perform c w)) a"
    using Cons.IH Cons.prems(2) by simp
  then show ?case using Cons.prems by (simp add: perform_heap_leaves)
qed

text \<open>Once the counter has reached the limit, no call changes the queue or the counter.\<close>

lemma throwInternal_throttled:
  assumes "MAX_INTERNAL_MESSAGE_LIMIT w \<le> messageCount w"
  shows "queue (snd (throwInternal p s m w)) = queue w
       \<and> messageCount (snd (throwInternal p s m w)) = messageCount w
       \<and> next_ref (snd (throwInternal p s m w)) = next_ref w"
proof (cases rule: throwInternal_cases [where w = w and p = p and s = s and m = m])
  case (logged r body t)
  then show ?thesis using assms
    by (simp add: logInternalMessage_queue logInternalMessage_count logInternalMessage_next_ref
          log_entries_def)
qed simp_all

lemma perform_throttled:
  assumes "MAX_INTERNAL_MESSAGE_LIMIT w \<le> messageCount w"
  shows "queue (snd (perform c w)) = queue w
       \<and> messageCount (snd (perform c w)) = messageCount w
       \<and> next_ref (snd (perform c w)) = next_ref w"
proof (cases c)
  case (LogInternalMessage s m)
  then show ?thesis using assms
    by (simp add: logInternalMessage_queue logInternalMessage_count logInternalMessage_next_ref
          log_entries_def)
qed (use assms in \<open>simp_all add: throwInternal_throttled
       throwInternalUserActionable_def throwInternalNonUserActionable_def\<close>)

lemma run_throttled:
  "MAX_INTERNAL_MESSAGE_LIMIT w \<le> messageCount w \<Longrightarrow>
     queue (run cs w) = queue w \<and> messageCount (run cs w) = messageCount w
     \<and> next_ref (run cs w) = next_ref w"
proof (induction cs arbitrary: w)
  case Nil
  then show ?case by simp
next
  case (Cons c cs)
  have p: "queue (snd (perform c w)) = queue w
       \<and> messageCount (snd (perform c w)) = messageCount w
       \<and> next_ref (snd (perform c w)) = next_ref w"
    using Cons.prems by (rule perform_throttled)
  then have "MAX_INTERNAL_MESSAGE_LIMIT (snd (perform c w)) \<le> messageCount (snd (perform c w))"
    using Cons.prems by simp
  from Cons.IH [OF this] p show ?case by simp
qed

lemma run_fields [simp]:
  "MAX_INTERNAL_MESSAGE_LIMIT (run cs w) = MAX_INTERNAL_MESSAGE_LIMIT w"
  "verboseLogging (run cs w) = verboseLogging w"
  "enableDebugExceptions (run cs w) = enableDebugExceptions w"
  "console (run cs w) = console w"
  by (induction cs arbitrary: w) simp_all

text \<open>
  A run of calls that all get through to the queue: the first \<open>n\<close> messages are queued,
  where \<open>n\<close> is the room left under the limit, and the sentinel follows the \<open>n\<close>-th.
\<close>

lemma run_queueing:
  assumes "\<forall>c\<in>set cs. reaches_queue w c \<and> (verboseLogging w \<or> severity_of c = CRITICAL)"
    and "n = nat (MAX_INTERNAL_MESSAGE_LIMIT w - messageCount w)"
  shows "queue (run cs w) = queue w @ map message_of (take n cs)
            @ (if 0 < n \<and> n \<le> length cs then [Ref (next_ref w)] else [])
       \<and> messageCount (run cs w) = messageCount w + int (min n (length cs))
       \<and> next_ref (run cs w) = (if 0 < n \<and> n \<le> length cs then Suc (next_ref w) else next_ref w)
       \<and> (0 < n \<and> n \<le> length cs \<longrightarrow>
            heap (run cs w) (next_ref w)
              = \<lparr> message = Some throttleLimitMessage, properties = PObject [] \<rparr>)"
  using assms
proof (induction cs arbitrary: w n)
  case Nil
  then show ?case by auto
next
  case (Cons c cs)
  let ?w1 = "snd (perform c w)"
  have rc: "reaches_queue w c" and sev: "verboseLogging w \<or> severity_of c = CRITICAL"
    using Cons.prems(1) by simp_all
  note eff = perform_reaches_queue [OF rc]
  have rest: "\<forall>c'\<in>set cs. reaches_queue ?w1 c' \<and> (verboseLogging ?w1 \<or> severity_of c' = CRITICAL)"
    using Cons.prems(1) by (simp add: perform_reaches_kept)
  consider (full) "n = 0" | (last) "n = 1" | (room) "2 \<le> n" by linarith
  then show ?case
  proof cases
    case full
    then have thr: "MAX_INTERNAL_MESSAGE_LIMIT w \<le> messageCount w"
      using Cons.prems(2) by simp
    have "queue (run (c # cs) w) = queue w \<and> messageCount (run (c # cs) w) = messageCount w
        \<and> next_ref (run (c # cs) w) = next_ref w"
      using run_throttled [OF thr, of "c # cs"] by simp
    then show ?thesis using full by simp
  next
    case last
    then have cnt: "messageCount w + 1 = MAX_INTERNAL_MESSAGE_LIMIT w"
      using Cons.prems(2) by linarith
    have le: "log_entries (severity_of c) (message_of c) w = [message_of c, Ref (next_ref w)]"
      using cnt sev by (auto simp: log_entries_def)
    have q1: "queue ?w1 = queue w @ [message_of c, Ref (next_ref w)]"
      and c1: "messageCount ?w1 = MAX_INTERNAL_MESSAGE_LIMIT w"
      and n1: "next_ref ?w1 = Suc (next_ref w)"
      using eff le cnt sev by auto
    have thr: "MAX_INTERNAL_MESSAGE_LIMIT ?w1 \<le> messageCount ?w1"
      using c1 by simp
    note r = run_throttled [OF thr, of cs]
    obtain w0 where w0: "perform c w = logInternalMessage (severity_of c) (message_of c) w0"
      "queue w0 = queue w" "messageCount w0 = messageCount w" "next_ref w0 = next_ref w"
      "MAX_INTERNAL_MESSAGE_LIMIT w0 = MAX_INTERNAL_MESSAGE_LIMIT w"
      "verboseLogging w0 = verboseLogging w"
      using perform_reaches_obtain [OF rc] by metis
    have "log_entries (severity_of c) (message_of c) w0 = [message_of c, Ref (next_ref w0)]"
      using w0(2-6) cnt sev by (auto simp: log_entries_def)
    then have h1: "heap ?w1 (next_ref w)
        = \<lparr> message = Some throttleLimitMessage, properties = PObject [] \<rparr>"
      using w0 by (simp add: logInternalMessage_heap)
    have "\<forall>c'\<in>set cs. leaves c' (next_ref w)"
      using Cons.prems(1) by (auto intro: reaches_leaves)
    then have "heap (run cs ?w1) (next_ref w) = heap ?w1 (next_ref w)"
      using n1 by (intro run_heap_leaves) simp_all
    then show ?thesis using last q1 c1 n1 r h1 cnt by simp
  next
    case room
    then have cnt: "messageCount w + 1 < MAX_INTERNAL_MESSAGE_LIMIT w"
      using Cons.prems(2) by linarith
    have le: "log_entries (severity_of c) (message_of c) w = [message_of c]"
      using cnt sev by (auto simp: log_entries_def)
    have q1: "queue ?w1 = queue w @ [message_of c]"
      and c1: "messageCount ?w1 = messageCount w + 1"
      and n1: "next_ref ?w1 = next_ref w"
      using eff le cnt sev by auto
    have n': "n - 1 = nat (MAX_INTERNAL_MESSAGE_LIMIT ?w1 - messageCount ?w1)"
      using Cons.prems(2) c1 by simp
    note ih = Cons.IH [OF rest n']
    obtain k where k: "n = Suc k" using room by (cases n) auto
    show ?thesis using ih q1 c1 n1 k room by (auto simp: min_def)
  qed
qed

lemma run_reaches_kept: "reaches_queue w c \<Longrightarrow> reaches_queue (run cs w) c"
  by (induction cs arbitrary: w) (simp_all add: perform_reaches_kept)

lemma reaches_queue_reset:
  "reaches_queue (snd (resetInternalMessageCount w)) c = reaches_queue w c"
  by (cases c)
     (auto simp: resetInternalMessageCount_def well_formed_def console_quiet_def
        split: msgarg.splits)

text \<open>
  Claim C3.  Let the limit be \<open>L \<ge> 1\<close>, the counter 0 and the queue empty, and let a client
  make \<open>L + 2\<close> CRITICAL calls that get through to the enqueue step, with no reset.  Then
  the queue holds exactly \<open>L + 1\<close> entries: the messages of the first \<open>L\<close> calls, in
  order, and then the sentinel, a new object whose text is the throttle notice.  Whatever
  calls follow, the queue stays as it is.  After \<open>resetInternalMessageCount\<close> a CRITICAL
  call is queued again.
\<close>

theorem throttle_limit_sentinel:
  assumes "1 \<le> L" and "MAX_INTERNAL_MESSAGE_LIMIT w = L" and "messageCount w = 0"
    and "queue w = []" and "length cs = nat L + 2"
    and "\<forall>c\<in>set cs. severity_of c = CRITICAL \<and> reaches_queue w c"
  shows "queue (run cs w) = map message_of (take (nat L) cs) @ [Ref (next_ref w)]
       \<and> length (queue (run cs w)) = nat L + 1
       \<and> message (heap (run cs w) (next_ref w))
           = Some ''AI (Internal): Internal events throttle limit per PageView reached for this app.''
       \<and> (\<forall>more. queue (run more (run cs w)) = queue (run cs w))
       \<and> (\<forall>c. severity_of c = CRITICAL \<and> reaches_queue w c \<longrightarrow>
             queue (snd (perform c (snd (resetInternalMessageCount (run cs w)))))
               = queue (run cs w) @ message_of c # (if L = 1 then [Ref (Suc (next_ref w))] else []))"
proof -
  let ?w' = "run cs w"
  have n: "nat L = nat (MAX_INTERNAL_MESSAGE_LIMIT w - messageCount w)"
    using assms(2,3) by simp
  have pre: "\<forall>c\<in>set cs. reaches_queue w c \<and> (verboseLogging w \<or> severity_of c = CRITICAL)"
    using assms(6) by simp
  note main = run_queueing [OF pre n]
  have pos: "0 < nat L \<and> nat L \<le> length cs"
    using assms(1,5) by simp
  have q: "queue ?w' = map message_of (take (nat L) cs) @ [Ref (next_ref w)]"
    using main pos assms(4) by simp
  have len: "length (queue ?w') = nat L + 1"
    using q pos by simp
  have cnt: "messageCount ?w' = L"
    using main pos assms(1,3) by (simp add: min_def)
  have sent: "message (heap ?w' (next_ref w))
      = Some ''AI (Internal): Internal events throttle limit per PageView reached for this app.''"
    using main pos by (simp add: throttleLimitMessage_def AiNonUserActionablePrefix_def)
  have thr: "MAX_INTERNAL_MESSAGE_LIMIT ?w' \<le> messageCount ?w'"
    using cnt assms(2) by simp
  have more: "\<forall>more. queue (run more ?w') = queue ?w'"
    using run_throttled [OF thr] by simp
  have nr: "next_ref ?w' = Suc (next_ref w)"
    using main pos by simp
  have again: "queue (snd (perform c (snd (resetInternalMessageCount ?w'))))
               = queue ?w' @ message_of c # (if L = 1 then [Ref (Suc (next_ref w))] else [])"
    if c: "severity_of c = CRITICAL" "reaches_queue w c" for c
  proof -
    let ?r = "snd (resetInternalMessageCount ?w')"
    have rq: "reaches_queue ?r c"
      using c(2) by (simp add: reaches_queue_reset run_reaches_kept)
    have "queue (snd (perform c ?r)) = queue ?r @ log_entries (severity_of c) (message_of c) ?r"
      using perform_reaches_queue(1) [OF rq] .
    then show ?thesis
      using c(1) assms(1,2) nr
      by (auto simp: log_entries_def resetInternalMessageCount_def)
  qed
  show ?thesis using q len sent more again by blast
qed

text \<open>The case of the test suite: limit 2 and four calls on the same message object.\<close>

theorem throttle_limit_sentinel_witness:
  "queue (run [LogInternalMessage CRITICAL (Ref 0), ThrowInternalUserActionable CRITICAL (Ref 0),
               ThrowInternalNonUserActionable CRITICAL (Ref 0), LogInternalMessage CRITICAL (Ref 0)]
              (page\<lparr> MAX_INTERNAL_MESSAGE_LIMIT := 2 \<rparr>))
     = [Ref 0, Ref 0, Ref 1]"
  using throttle_limit_sentinel [of 2 "page\<lparr> MAX_INTERNAL_MESSAGE_LIMIT := 2 \<rparr>"
      "[LogInternalMessage CRITICAL (Ref 0), ThrowInternalUserActionable CRITICAL (Ref 0),
        ThrowInternalNonUserActionable CRITICAL (Ref 0), LogInternalMessage CRITICAL (Ref 0)]"]
  by (simp add: page_def console_quiet_def well_formed_def eval_nat_numeral)

lemma logInternalMessage_balance:
  "throttle_balance (snd (logInternalMessage s m w)) = throttle_balance w"
  by (simp add: throttle_balance_def logInternalMessage_queue logInternalMessage_count log_entries_def)

lemma balance_frame [simp]:
  "throttle_balance (snd (warnToConsole t w)) = throttle_balance w"
  "throttle_balance (w\<lparr> heap := h \<rparr>) = throttle_balance w"
  by (simp_all add: throttle_balance_def)

lemma throwInternal_balance:
  "throttle_balance (snd (throwInternal p s m w)) = throttle_balance w"
  by (cases rule: throwInternal_cases [where w = w and p = p and s = s and m = m])
     (simp_all add: logInternalMessage_balance)

lemma perform_balance: "throttle_balance (snd (perform c w)) = throttle_balance w"
  by (cases c)
     (simp_all add: logInternalMessage_balance throwInternal_balance
        throwInternalUserActionable_def throwInternalNonUserActionable_def)

lemma run_balance: "throttle_balance (run cs w) = throttle_balance w"
  by (induction cs arbitrary: w) (simp_all add: perform_balance)

text \<open>
  One call: nothing is queued and the counter stays; or the caller's message is queued
  and the counter goes up by one; or that and, the counter now standing at the limit, a
  newly allocated sentinel is queued as well.
\<close>

lemma logInternalMessage_trichotomy:
  "(queue (snd (logInternalMessage s m w)) = queue w
      \<and> messageCount (snd (logInternalMessage s m w)) = messageCount w
      \<and> next_ref (snd (logInternalMessage s m w)) = next_ref w)
   \<or> (messageCount (snd (logInternalMessage s m w)) = messageCount w + 1
      \<and> messageCount (snd (logInternalMessage s m w)) \<noteq> MAX_INTERNAL_MESSAGE_LIMIT w
      \<and> queue (snd (logInternalMessage s m w)) = queue w @ [m]
      \<and> next_ref (snd (logInternalMessage s m w)) = next_ref w)
   \<or> (messageCount (snd (logInternalMessage s m w)) = messageCount w + 1
      \<and> messageCount (snd (logInternalMessage s m w)) = MAX_INTERNAL_MESSAGE_LIMIT w
      \<and> queue (snd (logInternalMessage s m w)) = queue w @ [m, Ref (next_ref w)]
      \<and> next_ref (snd (logInternalMessage s m w)) = Suc (next_ref w)
      \<and> message (heap (snd (logInternalMessage s m w)) (next_ref w)) = Some throttleLimitMessage)"
  by (simp add: logInternalMessage_queue logInternalMessage_count logInternalMessage_next_ref
        logInternalMessage_heap log_entries_def)

lemma throwInternal_trichotomy:
  "(queue (snd (throwInternal p s m w)) = queue w
      \<and> messageCount (snd (throwInternal p s m w)) = messageCount w
      \<and> next_ref (snd (throwInternal p s m w)) = next_ref w)
   \<or> (messageCount (snd (throwInternal p s m w)) = messageCount w + 1
      \<and> messageCount (snd (throwInternal p s m w)) \<noteq> MAX_INTERNAL_MESSAGE_LIMIT w
      \<and> queue (snd (throwInternal p s m w)) = queue w @ [m]
      \<and> next_ref (snd (throwInternal p s m w)) = next_ref w)
   \<or> (messageCount (snd (throwInternal p s m w)) = messageCount w + 1
      \<and> messageCount (snd (throwInternal p s m w)) = MAX_INTERNAL_MESSAGE_LIMIT w
      \<and> queue (snd (throwInternal p s m w)) = queue w @ [m, Ref (next_ref w)]
      \<and> next_ref (snd (throwInternal p s m w)) = Suc (next_ref w)
      \<and> message (heap (snd (throwInternal p s m w)) (next_ref w)) = Some throttleLimitMessage)"
proof (cases rule: throwInternal_cases [where w = w and p = p and s = s and m = m])
  case (logged r body t)
  show ?thesis
    using logInternalMessage_trichotomy [of s m
        "snd (warnToConsole t (w\<lparr> heap := (heap w)(r := (heap w r)\<lparr> message := Some (p @ body) \<rparr>) \<rparr>))"]
    by (simp add: logged(5))
qed simp_all

lemma perform_trichotomy:
  "(queue (snd (perform c w)) = queue w
      \<and> messageCount (snd (perform c w)) = messageCount w
      \<and> next_ref (snd (perform c w)) = next_ref w)
   \<or> (messageCount (snd (perform c w)) = messageCount w + 1
      \<and> messageCount (snd (perform c w)) \<noteq> MAX_INTERNAL_MESSAGE_LIMIT w
      \<and> queue (snd (perform c w)) = queue w @ [message_of c]
      \<and> next_ref (snd (perform c w)) = next_ref w)
   \<or> (messageCount (snd (perform c w)) = messageCount w + 1
      \<and> messageCount (snd (perform c w)) = MAX_INTERNAL_MESSAGE_LIMIT w
      \<and> queue (snd (perform c w)) = queue w @ [message_of c, Ref (next_ref w)]
      \<and> next_ref (snd (perform c w)) = Suc (next_ref w)
      \<and> message (heap (snd (perform c w)) (next_ref w)) = Some throttleLimitMessage)"
  by (cases c)
     (simp_all add: logInternalMessage_trichotomy throwInternal_trichotomy
        throwInternalUserActionable_def throwInternalNonUserActionable_def)

lemma act_step:
  assumes "a \<noteq> ResetInternalMessageCount"
  shows "int (appended a w) = messageCount (act a w) - messageCount w + int (crossing a w)"
proof (cases a)
  case (Call c)
  then show ?thesis using perform_trichotomy [of c w] by auto
next
  case (SetMaxInternalMessageLimit limit)
  then show ?thesis by (simp add: setMaxInternalMessageLimit_def)
next
  case (NewMessage msg props)
  then show ?thesis by (simp add: new_InternalLogMessage_def Let_def)
qed (use assms in simp_all)

lemma run_actions_since_reset:
  assumes "int k = messageCount w + int j"
  shows "int (queued_since_reset as w k)
           = messageCount (run_actions as w) + int (sentinels_since_reset as w j)"
  using assms
proof (induction as arbitrary: w k j)
  case Nil
  then show ?case by simp
next
  case (Cons a as)
  show ?case
  proof (cases "a = ResetInternalMessageCount")
    case True
    have "int 0 = messageCount (act ResetInternalMessageCount w) + int 0"
      by (simp add: resetInternalMessageCount_def)
    from Cons.IH [OF this] True show ?thesis by simp
  next
    case False
    have "int (k + appended a w) = messageCount (act a w) + int (j + crossing a w)"
      using act_step [OF False, of w] Cons.prems by simp
    from Cons.IH [OF this] False show ?thesis by (cases a) simp_all
  qed
qed

text \<open>
  Claim C4, as amended.  The counter goes up by one exactly in a call that appends the
  caller's message, and stays in a call that appends nothing; the sentinel, a new object,
  is appended in the call whose increment brings the counter to the limit, and is not
  counted.  So from a counter of 0, over any run of calls, console writes, new messages,
  changes of the limit and of the modes, emptyings of the queue and resets, the number
  of entries appended since the last reset is the counter plus the number of sentinels
  appended since then, one for each call whose increment brought the counter to the
  limit in force; the counter is the number of caller messages appended since the last
  reset.  In a run of calls alone, with a limit other than 0, the number of sentinels is
  one once the counter stands at the limit and none before.  A reset puts the counter
  back to 0.
\<close>

theorem counter_counts_caller_messages:
  assumes "messageCount w = 0"
  shows "int (queued_since_reset as w 0)
           = messageCount (run_actions as w) + int (sentinels_since_reset as w 0)
       \<and> (\<forall>c v. (queue (snd (perform c v)) = queue v
                 \<and> messageCount (snd (perform c v)) = messageCount v
                 \<and> next_ref (snd (perform c v)) = next_ref v)
              \<or> (messageCount (snd (perform c v)) = messageCount v + 1
                 \<and> messageCount (snd (perform c v)) \<noteq> MAX_INTERNAL_MESSAGE_LIMIT v
                 \<and> queue (snd (perform c v)) = queue v @ [message_of c]
                 \<and> next_ref (snd (perform c v)) = next_ref v)
              \<or> (messageCount (snd (perform c v)) = messageCount v + 1
                 \<and> messageCount (snd (perform c v)) = MAX_INTERNAL_MESSAGE_LIMIT v
                 \<and> queue (snd (perform c v)) = queue v @ [message_of c, Ref (next_ref v)]
                 \<and> next_ref (snd (perform c v)) = Suc (next_ref v)
                 \<and> message (heap (snd (perform c v)) (next_ref v))
                     = Some ''AI (Internal): Internal events throttle limit per PageView reached for this app.''))
       \<and> (MAX_INTERNAL_MESSAGE_LIMIT w \<noteq> 0 \<longrightarrow>
            int (length (queue (run cs w)))
              = int (length (queue w)) + messageCount (run cs w)
                + (if messageCount (run cs w) = MAX_INTERNAL_MESSAGE_LIMIT w then 1 else 0))
       \<and> (\<forall>v. messageCount (snd (resetInternalMessageCount v)) = 0)"
proof -
  have 1: "int (queued_since_reset as w 0)
           = messageCount (run_actions as w) + int (sentinels_since_reset as w 0)"
    using run_actions_since_reset [of 0 w 0 as] assms by simp
  have "throttle_balance (run cs w) = throttle_balance w"
    by (rule run_balance)
  then have 3: "MAX_INTERNAL_MESSAGE_LIMIT w \<noteq> 0 \<longrightarrow>
            int (length (queue (run cs w)))
              = int (length (queue w)) + messageCount (run cs w)
                + (if messageCount (run cs w) = MAX_INTERNAL_MESSAGE_LIMIT w then 1 else 0)"
    using assms by (auto simp: throttle_balance_def)
  have 4: "\<forall>v. messageCount (snd (resetInternalMessageCount v)) = 0"
    by (simp add: resetInternalMessageCount_def)
  have t: "throttleLimitMessage
      = ''AI (Internal): Internal events throttle limit per PageView reached for this app.''"
    by (simp add: throttleLimitMessage_def AiNonUserActionablePrefix_def)
  show ?thesis
    using 1 3 4 perform_trichotomy [unfolded t] by blast
qed

text \<open>
  With the initial limit of 25: three CRITICAL messages, the limit set to 3, the queue
  emptied, a new message made and logged give three entries appended, a counter of 3 and
  no sentinel.  With limit 2: a CRITICAL, a dropped WARNING and a CRITICAL give two
  messages and the sentinel, three entries in the queue.  With limit 2 again: two
  CRITICAL, a reset and one CRITICAL give one entry since the reset and a counter of 1.
\<close>

theorem counter_counts_caller_messages_witness:
  "queued_since_reset
      [Call (LogInternalMessage CRITICAL (Ref 0)), Call (LogInternalMessage CRITICAL (Ref 0)),
       Call (LogInternalMessage CRITICAL (Ref 0)), SetMaxInternalMessageLimit 3, ClearQueue,
       NewMessage ''late'' PUndefined, Call (LogInternalMessage CRITICAL (Ref 1))] page 0 = 3
   \<and> messageCount (run_actions
      [Call (LogInternalMessage CRITICAL (Ref 0)), Call (LogInternalMessage CRITICAL (Ref 0)),
       Call (LogInternalMessage CRITICAL (Ref 0)), SetMaxInternalMessageLimit 3, ClearQueue,
       NewMessage ''late'' PUndefined, Call (LogInternalMessage CRITICAL (Ref 1))] page) = 3
   \<and> queued_since_reset
      [Call (LogInternalMessage CRITICAL (Ref 0)), Call (ThrowInternalUserActionable WARNING (Ref 0)),
       Call (LogInternalMessage CRITICAL (Ref 0))] (page\<lparr> MAX_INTERNAL_MESSAGE_LIMIT := 2 \<rparr>) 0 = 3
   \<and> messageCount (run_actions
      [Call (LogInternalMessage CRITICAL (Ref 0)), Call (ThrowInternalUserActionable WARNING (Ref 0)),
       Call (LogInternalMessage CRITICAL (Ref 0))] (page\<lparr> MAX_INTERNAL_MESSAGE_LIMIT := 2 \<rparr>)) = 2
   \<and> length (queue (run
      [LogInternalMessage CRITICAL (Ref 0), ThrowInternalUserActionable WARNING (Ref 0),
       LogInternalMessage CRITICAL (Ref 0)] (page\<lparr> MAX_INTERNAL_MESSAGE_LIMIT := 2 \<rparr>))) = 3
   \<and> queued_since_reset
      [Call (LogInternalMessage CRITICAL (Ref 0)), Call (LogInternalMessage CRITICAL (Ref 0)),
       ResetInternalMessageCount, Call (LogInternalMessage CRITICAL (Ref 0))]
      (page\<lparr> MAX_INTERNAL_MESSAGE_LIMIT := 2 \<rparr>) 0 = 1
   \<and> messageCount (run_actions
      [Call (LogInternalMessage CRITICAL (Ref 0)), Call (LogInternalMessage CRITICAL (Ref 0)),
       ResetInternalMessageCount, Call (LogInternalMessage CRITICAL (Ref 0))]
      (page\<lparr> MAX_INTERNAL_MESSAGE_LIMIT := 2 \<rparr>)) = 1"
proof -
  let ?as = "[Call (LogInternalMessage CRITICAL (Ref 0)), Call (LogInternalMessage CRITICAL (Ref 0)),
       Call (LogInternalMessage CRITICAL (Ref 0)), SetMaxInternalMessageLimit 3, ClearQueue,
       NewMessage ''late'' PUndefined, Call (LogInternalMessage CRITICAL (Ref 1))]"
  let ?bs = "[Call (LogInternalMessage CRITICAL (Ref 0)), Call (ThrowInternalUserActionable WARNING (Ref 0)),
       Call (LogInternalMessage CRITICAL (Ref 0))]"
  let ?cs = "[LogInternalMessage CRITICAL (Ref 0), ThrowInternalUserActionable WARNING (Ref 0),
       LogInternalMessage CRITICAL (Ref 0)]"
  let ?ds = "[Call (LogInternalMessage CRITICAL (Ref 0)), Call (LogInternalMessage CRITICAL (Ref 0)),
       ResetInternalMessageCount, Call (LogInternalMessage CRITICAL (Ref 0))]"
  let ?v = "page\<lparr> MAX_INTERNAL_MESSAGE_LIMIT := 2 \<rparr>"
  have a: "messageCount (run_actions ?as page) = 3" "sentinels_since_reset ?as page 0 = 0"
    by (simp_all add: page_def log_defs setMaxInternalMessageLimit_def)
  have b: "messageCount (run_actions ?bs ?v) = 2" "sentinels_since_reset ?bs ?v 0 = 1"
    "messageCount (run ?cs ?v) = 2"
    by (simp_all add: page_def throwInternalUserActionable_def throwInternal_def seq_def
          warnToConsole_def call_console_def log_defs AiUserActionablePrefix_def)
  have d: "messageCount (run_actions ?ds ?v) = 1" "sentinels_since_reset ?ds ?v 0 = 0"
    by (simp_all add: page_def log_defs warnToConsole_def call_console_def
          resetInternalMessageCount_def)
  have z: "messageCount page = 0" "messageCount ?v = 0" "queue ?v = []"
    "MAX_INTERNAL_MESSAGE_LIMIT ?v = 2"
    by (simp_all add: page_def)
  note t = counter_counts_caller_messages [OF z(1), of ?as "[]"]
    counter_counts_caller_messages [OF z(2), of ?bs ?cs]
    counter_counts_caller_messages [OF z(2), of ?ds "[]"]
  have "int (queued_since_reset ?as page 0) = 3"
    using t(1) [THEN conjunct1] by (simp only: a; simp)
  moreover have "int (queued_since_reset ?bs ?v 0) = 3"
    using t(2) [THEN conjunct1] by (simp only: b; simp)
  moreover have "int (length (queue (run ?cs ?v))) = 3"
    using t(2) [THEN conjunct2, THEN conjunct2, THEN conjunct1] by (simp only: b z; simp)
  moreover have "int (queued_since_reset ?ds ?v 0) = 1"
    using t(3) [THEN conjunct1] by (simp only: d; simp)
  ultimately show ?thesis by (simp only: a b d; simp)
qed

text \<open>
  Claim C4 as stated fails: with limit 1, one CRITICAL message from a counter of 0 and an
  empty queue leaves two entries in the queue and a counter of 1.
\<close>

theorem sentinel_not_counted_counterexample:
  "messageCount (page\<lparr> MAX_INTERNAL_MESSAGE_LIMIT := 1 \<rparr>) = 0
   \<and> queue (page\<lparr> MAX_INTERNAL_MESSAGE_LIMIT := 1 \<rparr>) = []
   \<and> length (queue (snd (logInternalMessage CRITICAL (Ref 0) (page\<lparr> MAX_INTERNAL_MESSAGE_LIMIT := 1 \<rparr>)))) = 2
   \<and> messageCount (snd (logInternalMessage CRITICAL (Ref 0) (page\<lparr> MAX_INTERNAL_MESSAGE_LIMIT := 1 \<rparr>))) = 1"
  by (simp add: page_def log_defs warnToConsole_def call_console_def)

lemma logInternalMessage_returns:
  "console_quiet w \<Longrightarrow> fst (logInternalMessage s m w) = Returns ()"
  by (simp add: log_defs warnToConsole_quiet console_quiet_def)

lemma throwInternal_returns:
  assumes "\<not> enableDebugExceptions w" and "console_quiet w"
    and "\<forall>r. m = Ref r \<and> message (heap w r) \<noteq> None \<longrightarrow> properties (heap w r) \<noteq> PUnserializable"
  shows "fst (throwInternal p s m w) = Returns ()"
proof (cases rule: throwInternal_cases [where w = w and p = p and s = s and m = m])
  case (logged r body t)
  have "console_quiet (snd (warnToConsole t (w\<lparr> heap := (heap w)(r := (heap w r)\<lparr> message := Some (p @ body) \<rparr>) \<rparr>)))"
    using assms(2) by (simp add: console_quiet_def)
  then show ?thesis using logged(5) by (simp add: logInternalMessage_returns)
qed (use assms in auto)

text \<open>
  Claim C5, as amended.  Outside debug mode the four operations of the log return
  normally whenever the console is quiet and the properties of the message are not an
  object that \<open>JSON.stringify\<close> rejects.  A missing console, and a console with neither
  \<open>warn\<close> nor \<open>log\<close>, is passed over without a write.
\<close>

theorem log_returns_when_console_quiet:
  assumes "\<not> enableDebugExceptions w" and "console_quiet w"
    and "\<forall>r. m = Ref r \<and> message (heap w r) \<noteq> None \<longrightarrow> properties (heap w r) \<noteq> PUnserializable"
  shows "fst (throwInternalUserActionable s m w) = Returns ()
       \<and> fst (throwInternalNonUserActionable s m w) = Returns ()
       \<and> fst (logInternalMessage s m w) = Returns ()
       \<and> fst (warnToConsole t w) = Returns ()
       \<and> (console w = ConsoleUndefined \<or> console w = ConsoleNull
            \<or> console w = ConsoleObject NotFunction NotFunction
          \<longrightarrow> warnToConsole t w = (Returns (), w))"
proof -
  have "console w = ConsoleUndefined \<or> console w = ConsoleNull
            \<or> console w = ConsoleObject NotFunction NotFunction
          \<longrightarrow> warnToConsole t w = (Returns (), w)"
    by (auto simp: warnToConsole_def)
  then show ?thesis
    using assms
    by (simp add: throwInternalUserActionable_def throwInternalNonUserActionable_def
          throwInternal_returns logInternalMessage_returns warnToConsole_quiet)
qed

theorem log_returns_when_console_quiet_witness:
  "fst (throwInternalUserActionable CRITICAL (Ref 0) (page\<lparr> console := ConsoleUndefined \<rparr>)) = Returns ()
   \<and> fst (throwInternalNonUserActionable WARNING (Ref 0) (page\<lparr> console := ConsoleUndefined \<rparr>)) = Returns ()
   \<and> fst (throwInternalNonUserActionable CRITICAL Null page) = Returns ()
   \<and> fst (logInternalMessage CRITICAL (Ref 0) page) = Returns ()
   \<and> fst (warnToConsole ''error!'' page) = Returns ()"
  using log_returns_when_console_quiet
    [of "page\<lparr> console := ConsoleUndefined \<rparr>" "Ref 0" CRITICAL "''x''"]
    log_returns_when_console_quiet
    [of "page\<lparr> console := ConsoleUndefined \<rparr>" "Ref 0" WARNING "''x''"]
    log_returns_when_console_quiet [of page Null CRITICAL "''error!''"]
    log_returns_when_console_quiet [of page "Ref 0" CRITICAL "''error!''"]
  by (simp add: page_def console_quiet_def)

text \<open>
  Claim C5 as stated fails: outside debug mode, a \<open>console.warn\<close> that throws makes
  \<open>warnToConsole\<close> and \<open>throwInternalUserActionable\<close> throw.
\<close>

theorem console_throws_counterexample:
  "\<not> enableDebugExceptions page_with_failing_console
   \<and> fst (warnToConsole ''error!'' page_with_failing_console)
       = Throws (ThrownError ''console failed'')
   \<and> fst (throwInternalUserActionable CRITICAL (Ref 0) page_with_failing_console)
       = Throws (ThrownError ''console failed'')"
  by (simp add: page_with_failing_console_def failing_method_def page_def warnToConsole_def
        call_console_def throwInternalUserActionable_def throwInternal_def seq_def)

lemma throwInternal_warning_dropped:
  assumes "\<not> verboseLogging w"
  shows "queue (snd (throwInternal p WARNING m w)) = queue w"
  by (cases rule: throwInternal_cases [where w = w and p = p and s = WARNING and m = m])
     (use assms in \<open>simp_all add: logInternalMessage_queue log_entries_def\<close>)

lemma perform_warning_dropped:
  assumes "\<not> verboseLogging w" and "severity_of c = WARNING"
  shows "queue (snd (perform c w)) = queue w"
  using assms
  by (cases c)
     (simp_all add: throwInternal_warning_dropped logInternalMessage_queue log_entries_def
        throwInternalUserActionable_def throwInternalNonUserActionable_def)

text \<open>
  Claim C7, as amended.  With verbose logging off, a WARNING call appends nothing.  From a
  counter of 0, a CRITICAL call that gets through appends exactly its message when the
  limit is above 1 (the initial limit is 25), its message followed by the sentinel when
  the limit is 1, and nothing when the limit is 0 or negative.  With verbose logging on,
  from a counter of 0 and a limit \<open>L\<close>, a run of calls of either severity that get through
  appends all of them up to the limit: the first \<open>L\<close> messages, followed by the sentinel
  when \<open>L \<ge> 1\<close> and the run has \<open>L\<close> or more, and none when \<open>L \<le> 0\<close>.
\<close>

theorem verbosity_filter:
  "(\<not> verboseLogging w \<and> severity_of c = WARNING \<longrightarrow> queue (snd (perform c w)) = queue w)
   \<and> (messageCount w = 0 \<and> severity_of c = CRITICAL \<and> reaches_queue w c \<longrightarrow>
        (1 < MAX_INTERNAL_MESSAGE_LIMIT w \<longrightarrow> queue (snd (perform c w)) = queue w @ [message_of c])
      \<and> (MAX_INTERNAL_MESSAGE_LIMIT w = 1 \<longrightarrow>
            queue (snd (perform c w)) = queue w @ [message_of c, Ref (next_ref w)])
      \<and> (MAX_INTERNAL_MESSAGE_LIMIT w \<le> 0 \<longrightarrow> queue (snd (perform c w)) = queue w))
   \<and> (verboseLogging w \<and> messageCount w = 0 \<and> (\<forall>c\<in>set cs. reaches_queue w c) \<longrightarrow>
        queue (run cs w)
          = queue w @ map message_of (take (nat (MAX_INTERNAL_MESSAGE_LIMIT w)) cs)
            @ (if 1 \<le> MAX_INTERNAL_MESSAGE_LIMIT w \<and> nat (MAX_INTERNAL_MESSAGE_LIMIT w) \<le> length cs
               then [Ref (next_ref w)] else []))"
proof (intro conjI impI)
  assume "\<not> verboseLogging w \<and> severity_of c = WARNING"
  then show "queue (snd (perform c w)) = queue w"
    by (simp add: perform_warning_dropped)
next
  assume a: "messageCount w = 0 \<and> severity_of c = CRITICAL \<and> reaches_queue w c"
  then have q: "queue (snd (perform c w)) = queue w @ log_entries (severity_of c) (message_of c) w"
    by (simp add: perform_reaches_queue(1))
  {
    assume "1 < MAX_INTERNAL_MESSAGE_LIMIT w"
    then show "queue (snd (perform c w)) = queue w @ [message_of c]"
      using a q by (simp add: log_entries_def)
  next
    assume "MAX_INTERNAL_MESSAGE_LIMIT w = 1"
    then show "queue (snd (perform c w)) = queue w @ [message_of c, Ref (next_ref w)]"
      using a q by (simp add: log_entries_def)
  next
    assume "MAX_INTERNAL_MESSAGE_LIMIT w \<le> 0"
    then show "queue (snd (perform c w)) = queue w"
      using a q by (simp add: log_entries_def)
  }
next
  assume a: "verboseLogging w \<and> messageCount w = 0 \<and> (\<forall>c\<in>set cs. reaches_queue w c)"
  then have pre: "\<forall>c\<in>set cs. reaches_queue w c \<and> (verboseLogging w \<or> severity_of c = CRITICAL)"
    by simp
  have n: "nat (MAX_INTERNAL_MESSAGE_LIMIT w) = nat (MAX_INTERNAL_MESSAGE_LIMIT w - messageCount w)"
    using a by simp
  from run_queueing [OF pre n] a
  show "queue (run cs w)
          = queue w @ map message_of (take (nat (MAX_INTERNAL_MESSAGE_LIMIT w)) cs)
            @ (if 1 \<le> MAX_INTERNAL_MESSAGE_LIMIT w \<and> nat (MAX_INTERNAL_MESSAGE_LIMIT w) \<le> length cs
               then [Ref (next_ref w)] else [])"
    by auto
qed

text \<open>
  The initial state (limit 25) with a WARNING and with a CRITICAL call, the limits 1 and
  \<open>-1\<close>, and the four calls of the test suite with verbose logging on.
\<close>

theorem verbosity_filter_witness:
  "queue (snd (perform (ThrowInternalNonUserActionable WARNING (Ref 0)) page)) = []
   \<and> queue (snd (perform (ThrowInternalUserActionable CRITICAL (Ref 0)) page)) = [Ref 0]
   \<and> queue (snd (perform (ThrowInternalUserActionable CRITICAL (Ref 0))
        (page\<lparr> MAX_INTERNAL_MESSAGE_LIMIT := 1 \<rparr>))) = [Ref 0, Ref 1]
   \<and> queue (snd (perform (ThrowInternalUserActionable CRITICAL (Ref 0))
        (page\<lparr> MAX_INTERNAL_MESSAGE_LIMIT := - 1 \<rparr>))) = []
   \<and> queue (run [ThrowInternalNonUserActionable WARNING (Ref 0), ThrowInternalUserActionable WARNING (Ref 0),
                  ThrowInternalNonUserActionable CRITICAL (Ref 0), ThrowInternalUserActionable CRITICAL (Ref 0)]
                 (page\<lparr> verboseLogging := True \<rparr>))
       = [Ref 0, Ref 0, Ref 0, Ref 0]"
  using verbosity_filter [of page "ThrowInternalNonUserActionable WARNING (Ref 0)" "[]"]
    verbosity_filter [of page "ThrowInternalUserActionable CRITICAL (Ref 0)" "[]"]
    verbosity_filter [of "page\<lparr> MAX_INTERNAL_MESSAGE_LIMIT := 1 \<rparr>"
      "ThrowInternalUserActionable CRITICAL (Ref 0)" "[]"]
    verbosity_filter [of "page\<lparr> MAX_INTERNAL_MESSAGE_LIMIT := - 1 \<rparr>"
      "ThrowInternalUserActionable CRITICAL (Ref 0)" "[]"]
    verbosity_filter [of "page\<lparr> verboseLogging := True \<rparr>" "LogInternalMessage CRITICAL Null"
      "[ThrowInternalNonUserActionable WARNING (Ref 0), ThrowInternalUserActionable WARNING (Ref 0),
        ThrowInternalNonUserActionable CRITICAL (Ref 0), ThrowInternalUserActionable CRITICAL (Ref 0)]"]
  by (simp add: page_def console_quiet_def well_formed_def)

text \<open>
  Claim C7 as stated fails: with verbose logging off, a counter of 0 and debug mode off,
  one CRITICAL call appends two entries when the limit is 1, through
  \<open>logInternalMessage\<close> as well as through \<open>throwInternalUserActionable\<close>, and no entry
  when the limit is \<open>-1\<close>.
\<close>

theorem critical_at_limit_one_counterexample:
  "\<not> verboseLogging (page\<lparr> MAX_INTERNAL_MESSAGE_LIMIT := 1 \<rparr>)
   \<and> \<not> enableDebugExceptions (page\<lparr> MAX_INTERNAL_MESSAGE_LIMIT := 1 \<rparr>)
   \<and> messageCount (page\<lparr> MAX_INTERNAL_MESSAGE_LIMIT := 1 \<rparr>) = 0
   \<and> queue (page\<lparr> MAX_INTERNAL_MESSAGE_LIMIT := 1 \<rparr>) = []
   \<and> queue (snd (logInternalMessage CRITICAL (Ref 0) (page\<lparr> MAX_INTERNAL_MESSAGE_LIMIT := 1 \<rparr>)))
       = [Ref 0, Ref 1]
   \<and> queue (snd (throwInternalUserActionable CRITICAL (Ref 0)
        (page\<lparr> MAX_INTERNAL_MESSAGE_LIMIT := 1 \<rparr>))) = [Ref 0, Ref 1]
   \<and> queue (snd (logInternalMessage CRITICAL (Ref 0) (page\<lparr> MAX_INTERNAL_MESSAGE_LIMIT := - 1 \<rparr>)))
       = []"
  by (simp add: page_def log_defs warnToConsole_def call_console_def
        throwInternalUserActionable_def throwInternal_def seq_def)

text \<open>
  Claim C9.  Outside debug mode, one call of \<open>throwInternalUserActionable\<close> on a message
  object with a defined text puts \<open>"AI: "\<close> in front of the text, once, and one call of
  \<open>throwInternalNonUserActionable\<close> puts \<open>"AI (Internal): "\<close> in front of it, once;
  whatever the severity, the verbosity, the counter and the console are, so also when the
  message is then dropped.
\<close>

theorem prefix_once:
  assumes "\<not> enableDebugExceptions w" and "r < next_ref w" and "message (heap w r) = Some body"
  shows "message (heap (snd (throwInternalUserActionable s (Ref r) w)) r) = Some (''AI: '' @ body)
       \<and> message (heap (snd (throwInternalNonUserActionable s (Ref r) w)) r)
           = Some (''AI (Internal): '' @ body)"
  using throwInternal_prefixes [OF assms, of AiUserActionablePrefix s]
    throwInternal_prefixes [OF assms, of AiNonUserActionablePrefix s]
  by (simp add: throwInternalUserActionable_def throwInternalNonUserActionable_def
        AiUserActionablePrefix_def AiNonUserActionablePrefix_def)

theorem prefix_once_witness:
  "message (heap (snd (throwInternalUserActionable WARNING (Ref 0) page)) 0) = Some ''AI: error!''
   \<and> message (heap (snd (throwInternalNonUserActionable CRITICAL (Ref 0)
        (page\<lparr> messageCount := 25 \<rparr>))) 0) = Some ''AI (Internal): error!''"
  using prefix_once [of page 0 "''error!''" WARNING]
    prefix_once [of "page\<lparr> messageCount := 25 \<rparr>" 0 "''error!''" CRITICAL]
  by (simp add: page_def)

text \<open>
  Claim C10.  On \<open>undefined\<close>, on \<open>null\<close> and on an object whose \<open>message\<close> member is
  \<open>undefined\<close>, both entry points return with the state unchanged outside debug mode,
  and throw the argument as it is, with the state unchanged, in debug mode.
\<close>

theorem degenerate_message_noop:
  assumes "m = Undefined \<or> m = Null \<or> (\<exists>r. m = Ref r \<and> message (heap w r) = None)"
  shows "(\<not> enableDebugExceptions w \<longrightarrow>
            throwInternalUserActionable s m w = (Returns (), w)
          \<and> throwInternalNonUserActionable s m w = (Returns (), w))
       \<and> (enableDebugExceptions w \<longrightarrow>
            throwInternalUserActionable s m w = (Throws (ThrownMessage m), w)
          \<and> throwInternalNonUserActionable s m w = (Throws (ThrownMessage m), w))"
  using assms
  by (auto simp: throwInternalUserActionable_def throwInternalNonUserActionable_def throwInternal_def)

theorem degenerate_message_noop_witness:
  "throwInternalUserActionable CRITICAL Undefined page = (Returns (), page)
   \<and> throwInternalNonUserActionable CRITICAL Null (page\<lparr> enableDebugExceptions := True \<rparr>)
       = (Throws (ThrownMessage Null), page\<lparr> enableDebugExceptions := True \<rparr>)"
  using degenerate_message_noop [of Undefined page CRITICAL]
    degenerate_message_noop [of Null "page\<lparr> enableDebugExceptions := True \<rparr>" CRITICAL]
  by (simp add: page_def)

section \<open>The loss ledger: what an operation does\<close>

lemmas num_defs = to_number_def trim_def is_space_def unsigned_number_def is_digit_def
  digits_value_def digit_value_def decimal_digits_def

lemma below_ten:
  assumes "(d::nat) < 10"
  obtains "d = 0" | "d = 1" | "d = 2" | "d = 3" | "d = 4" | "d = 5" | "d = 6" | "d = 7"
    | "d = 8" | "d = 9"
proof -
  have "d = 0 \<or> d = 1 \<or> d = 2 \<or> d = 3 \<or> d = 4 \<or> d = 5 \<or> d = 6 \<or> d = 7 \<or> d = 8 \<or> d = 9"
    using assms by arith
  then show ?thesis using that by blast
qed

lemma digit_value_char: "d < 10 \<Longrightarrow> digit_value (digit_char d) = Some d"
  by (erule below_ten) (simp_all add: digit_char_def digit_value_def decimal_digits_def)

lemma digit_char_in_digits: "digit_char d \<in> set decimal_digits"
  unfolding digit_char_def by (rule nth_mem) (simp add: decimal_digits_def)

lemma digit_char_not_space: "\<not> is_space (digit_char d)"
  using digit_char_in_digits [of d] by (auto simp: decimal_digits_def is_space_def)

lemma digit_char_not_sign: "digit_char d \<noteq> CHR ''-''" "digit_char d \<noteq> CHR ''+''"
  using digit_char_in_digits [of d] by (auto simp: decimal_digits_def)

lemma digits_nonempty: "digits n \<noteq> []"
  by (subst digits.simps) simp

lemma is_digit_char: "d < 10 \<Longrightarrow> is_digit (digit_char d)"
  by (simp add: is_digit_def digit_value_char)

lemma digits_all: "list_all is_digit (digits n)"
proof (induction n rule: digits.induct)
  case (1 n)
  show ?case
    by (subst digits.simps) (use 1 in \<open>simp add: is_digit_char\<close>)
qed

lemma digits_value_snoc:
  "digits_value (ds @ [c]) = digits_value ds * 10 + (case digit_value c of Some d \<Rightarrow> d | None \<Rightarrow> 0)"
  by (simp add: digits_value_def)

lemma digits_value_digits: "digits_value (digits n) = n"
proof (induction n rule: digits.induct)
  case (1 n)
  show ?case
  proof (cases "n < 10")
    case True
    then show ?thesis
      by (subst digits.simps) (simp add: digits_value_def digit_value_char)
  next
    case False
    then show ?thesis
      by (subst digits.simps) (simp add: digits_value_snoc digit_value_char 1)
  qed
qed

lemma digits_hd: "\<exists>d ds. digits n = digit_char d # ds"
proof (induction n rule: digits.induct)
  case (1 n)
  show ?case
  proof (cases "n < 10")
    case True
    then show ?thesis by (subst digits.simps) auto
  next
    case False
    with 1 obtain d ds where "digits (n div 10) = digit_char d # ds" by blast
    with False show ?thesis by (subst digits.simps) auto
  qed
qed

lemma digits_last: "\<exists>d. last (digits n) = digit_char d"
  by (subst digits.simps) auto

lemma trim_digits: "trim (digits n) = digits n"
proof -
  obtain d ds where hd: "digits n = digit_char d # ds" using digits_hd by blast
  obtain e where "last (digits n) = digit_char e" using digits_last by blast
  then have "\<not> is_space (hd (rev (digits n)))"
    using digits_nonempty [of n] by (simp add: hd_rev digit_char_not_space)
  then have "dropWhile is_space (rev (digits n)) = rev (digits n)"
    using digits_nonempty [of n] by (cases "rev (digits n)") simp_all
  moreover have "dropWhile is_space (digits n) = digits n"
    using hd by (simp add: digit_char_not_space)
  ultimately show ?thesis by (simp add: trim_def)
qed

lemma trim_minus_digits: "trim (CHR ''-'' # digits n) = CHR ''-'' # digits n"
proof -
  obtain e where "last (digits n) = digit_char e" using digits_last by blast
  then have "\<not> is_space (hd (rev (CHR ''-'' # digits n)))"
    using digits_nonempty [of n] by (simp add: hd_append digit_char_not_space hd_rev)
  then have "dropWhile is_space (rev (CHR ''-'' # digits n)) = rev (CHR ''-'' # digits n)"
    by (cases "rev (CHR ''-'' # digits n)") simp_all
  moreover have "dropWhile is_space (CHR ''-'' # digits n) = CHR ''-'' # digits n"
    by (simp add: is_space_def)
  ultimately show ?thesis by (simp add: trim_def)
qed

text \<open>What \<open>toString\<close> writes, \<open>+\<close> reads back.\<close>

lemma to_number_toString: "to_number (Some (number_toString i)) = Num i"
proof (cases "i < 0")
  case True
  then show ?thesis
    by (simp add: number_toString_def to_number_def trim_minus_digits unsigned_number_def
          digits_nonempty digits_all digits_value_digits)
next
  case False
  obtain d ds where hd: "digits (nat i) = digit_char d # ds" using digits_hd by blast
  have u: "unsigned_number (digits (nat i)) 1 = Num i"
    using False by (simp add: unsigned_number_def digits_nonempty digits_all digits_value_digits)
  have "to_number (Some (digits (nat i)))
      = (case digits (nat i) of [] \<Rightarrow> Num 0
         | c # cs \<Rightarrow> if c = CHR ''-'' then unsigned_number cs (- 1)
                    else if c = CHR ''+'' then unsigned_number cs 1
                    else unsigned_number (c # cs) 1)"
    by (simp add: to_number_def trim_digits)
  also have "\<dots> = unsigned_number (digits (nat i)) 1"
    by (simp add: hd digit_char_not_sign)
  finally show ?thesis
    using False u by (simp add: number_toString_def)
qed

text \<open>
  \<open>reads_exactly\<close> holds of an absent key, of what the Ledger writes for an integer a
  number holds exactly, and of a string with a character foreign to numbers; it fails on
  strings JavaScript reads as numbers the model does not have.
\<close>

lemma reads_exactly_absent: "reads_exactly None"
  by (simp add: reads_exactly_def to_number_def safe_integer_def)

lemma reads_exactly_written: "safe_integer n \<Longrightarrow> reads_exactly (Some (number_toString n))"
  by (simp add: reads_exactly_def to_number_toString)

lemma reads_exactly_examples:
  "reads_exactly (Some ''7'')" "reads_exactly (Some ''unset'')"
  "\<not> reads_exactly (Some ''1e1'')" "\<not> reads_exactly (Some ''9.5'')"
  "\<not> reads_exactly (Some ''0x10'')" "\<not> reads_exactly (Some ''9007199254740993'')"
  by (simp_all add: reads_exactly_def safe_integer_def numeric_char_def num_defs)

lemma keys_distinct [simp]:
  "ITEMS_QUEUED_KEY \<noteq> ISSUES_REPORTED_KEY" "ISSUES_REPORTED_KEY \<noteq> ITEMS_QUEUED_KEY"
  by (simp_all add: ITEMS_QUEUED_KEY_def ISSUES_REPORTED_KEY_def)

lemma getItem_ready:
  "isEnabled w \<Longrightarrow> backend_quiet w \<Longrightarrow> sessionStorage_getItem k w = (Returns (stored w k), w)"
  by (auto simp: isEnabled_def backend_quiet_def sessionStorage_getItem_def stored_def
      split: option.splits)

lemma setItem_ready:
  "isEnabled w \<Longrightarrow> backend_quiet w \<Longrightarrow> sessionStorage_setItem k v w = (Returns (), store_put k v w)"
  by (auto simp: isEnabled_def backend_quiet_def sessionStorage_setItem_def store_put_def
      split: option.splits)

lemma store_put_ready [simp]:
  "isEnabled (store_put k v w) = isEnabled w"
  "backend_quiet (store_put k v w) = backend_quiet w"
  "reporter_quiet (store_put k v w) = reporter_quiet w"
  by (auto simp: isEnabled_def backend_quiet_def reporter_quiet_def store_put_def split: option.splits)

lemma store_put_fields [simp]:
  "reporter_calls (store_put k v w) = reporter_calls w"
  "LIMIT_PER_SESSION (store_put k v w) = LIMIT_PER_SESSION w"
  "appInsights (store_put k v w) = appInsights w"
  "enabled (store_put k v w) = enabled w"
  by (simp_all add: store_put_def split: option.splits)

lemma stored_store_put:
  "isEnabled w \<Longrightarrow> stored (store_put k v w) k' = (if k' = k then Some v else stored w k')"
  by (auto simp: isEnabled_def stored_def store_put_def split: option.splits)

lemma counter_value_put:
  "isEnabled w \<Longrightarrow> counter_value (store_put k (number_toString n) w) k = n"
  "isEnabled w \<Longrightarrow> k' \<noteq> k \<Longrightarrow> counter_value (store_put k v w) k' = counter_value w k'"
  by (simp_all add: counter_value_def stored_store_put to_number_toString)

lemma number_or_zero_ready:
  assumes "isEnabled w" "backend_quiet w"
  shows "number_or_zero k w = (Returns (counter_value w k), w)"
  using assms
  by (simp add: number_or_zero_def seq_def getItem_ready counter_value_def isNaN_def
      split: jsnum.splits)

lemma reset_ready:
  "isEnabled w \<Longrightarrow> backend_quiet w \<Longrightarrow> reset w = (Returns (), store_put ITEMS_QUEUED_KEY ''0'' w)"
  by (simp add: reset_def setItem_ready)

lemma getIssuesReported_ready:
  "isEnabled w \<Longrightarrow> backend_quiet w \<Longrightarrow>
     getIssuesReported w = (Returns (counter_value w ISSUES_REPORTED_KEY), w)"
  by (simp add: getIssuesReported_def number_or_zero_ready)

lemma getNumberOfLostItems_ready:
  "isEnabled w \<Longrightarrow> backend_quiet w \<Longrightarrow>
     getNumberOfLostItems w = (Returns (counter_value w ITEMS_QUEUED_KEY), w)"
  by (simp add: getNumberOfLostItems_def try_catch_def number_or_zero_ready)

lemma incrementItemsQueued_ready:
  "isEnabled w \<Longrightarrow> backend_quiet w \<Longrightarrow>
     incrementItemsQueued w
       = (Returns (), store_put ITEMS_QUEUED_KEY
            (number_toString (counter_value w ITEMS_QUEUED_KEY + 1)) w)"
  by (simp add: incrementItemsQueued_def try_catch_def seq_def getNumberOfLostItems_ready
        setItem_ready)

lemma decrementItemsQueued_ready:
  "isEnabled w \<Longrightarrow> backend_quiet w \<Longrightarrow>
     decrementItemsQueued n w
       = (Returns (), store_put ITEMS_QUEUED_KEY
            (number_toString (max 0 (counter_value w ITEMS_QUEUED_KEY - n))) w)"
  by (simp add: decrementItemsQueued_def try_catch_def seq_def getNumberOfLostItems_ready
        setItem_ready Let_def max_def)

lemma times_increment:
  assumes "isEnabled w" "backend_quiet w"
  shows "isEnabled (repeat_op k incrementItemsQueued w) \<and> backend_quiet (repeat_op k incrementItemsQueued w)
       \<and> counter_value (repeat_op k incrementItemsQueued w) ITEMS_QUEUED_KEY
           = counter_value w ITEMS_QUEUED_KEY + int k"
  using assms
proof (induction k arbitrary: w)
  case 0
  then show ?case by simp
next
  case (Suc k)
  let ?w1 = "store_put ITEMS_QUEUED_KEY (number_toString (counter_value w ITEMS_QUEUED_KEY + 1)) w"
  have "isEnabled ?w1" "backend_quiet ?w1" using Suc.prems by simp_all
  from Suc.IH [OF this] Suc.prems show ?case
    by (simp add: incrementItemsQueued_ready counter_value_put)
qed

lemma to_number_zero: "to_number None = Num 0" "to_number (Some ''0'') = Num 0"
  by (simp_all add: num_defs)

text \<open>
  Claim C8.  With the Ledger on and a storage that does not throw, start from
  \<open>itemsQueued\<close> unset or \<open>"0"\<close>.  After \<open>K\<close> calls of \<open>incrementItemsQueued\<close> and then
  \<open>decrementItemsQueued(M)\<close>, \<open>getNumberOfLostItems()\<close> is \<open>K - M\<close> when \<open>M \<le> K\<close> and 0
  when \<open>M > K\<close>, and that number is what is persisted; after each of the first \<open>j\<close>
  increments the count is \<open>j\<close>.  So the persisted value is never negative.
\<close>

theorem queued_items_balance:
  assumes "isEnabled w" and "backend_quiet w"
    and "stored w ITEMS_QUEUED_KEY = None \<or> stored w ITEMS_QUEUED_KEY = Some ''0''"
  shows "fst (getNumberOfLostItems (snd (decrementItemsQueued M (repeat_op K incrementItemsQueued w))))
           = Returns (if M \<le> int K then int K - M else 0)
       \<and> stored (snd (decrementItemsQueued M (repeat_op K incrementItemsQueued w))) ITEMS_QUEUED_KEY
           = Some (number_toString (if M \<le> int K then int K - M else 0))
       \<and> (\<forall>j \<le> K. fst (getNumberOfLostItems (repeat_op j incrementItemsQueued w)) = Returns (int j))"
proof -
  have zero: "counter_value w ITEMS_QUEUED_KEY = 0"
    using assms(3) by (auto simp: counter_value_def to_number_zero)
  have inc: "isEnabled (repeat_op j incrementItemsQueued w) \<and> backend_quiet (repeat_op j incrementItemsQueued w)
       \<and> counter_value (repeat_op j incrementItemsQueued w) ITEMS_QUEUED_KEY = int j" for j
    using times_increment [OF assms(1,2), of j] zero by simp
  let ?w1 = "repeat_op K incrementItemsQueued w"
  let ?v = "if M \<le> int K then int K - M else 0"
  have dec: "decrementItemsQueued M ?w1 = (Returns (), store_put ITEMS_QUEUED_KEY (number_toString ?v) ?w1)"
    using inc [of K] by (simp add: decrementItemsQueued_ready max_def)
  have "fst (getNumberOfLostItems (snd (decrementItemsQueued M ?w1))) = Returns ?v"
    using inc [of K] by (simp add: dec getNumberOfLostItems_ready counter_value_put)
  moreover have "stored (snd (decrementItemsQueued M ?w1)) ITEMS_QUEUED_KEY = Some (number_toString ?v)"
    using inc [of K] by (simp add: dec stored_store_put)
  moreover have "\<forall>j \<le> K. fst (getNumberOfLostItems (repeat_op j incrementItemsQueued w)) = Returns (int j)"
    using inc by (simp add: getNumberOfLostItems_ready)
  ultimately show ?thesis by blast
qed

lemma session_ready: "isEnabled session" "backend_quiet session" "reporter_quiet session"
  by (simp_all add: session_def page_def isEnabled_def backend_quiet_def reporter_quiet_def
        quiet_getItem_def quiet_setItem_def quiet_trackTrace_def)

theorem queued_items_balance_witness:
  "fst (getNumberOfLostItems (snd (decrementItemsQueued 2
      (repeat_op 3 incrementItemsQueued (snd (reset session)))))) = Returns 1
   \<and> fst (getNumberOfLostItems (snd (decrementItemsQueued 5
      (repeat_op 3 incrementItemsQueued (snd (reset session)))))) = Returns 0"
proof -
  let ?w = "snd (reset session)"
  have r: "?w = store_put ITEMS_QUEUED_KEY ''0'' session"
    by (simp add: reset_ready session_ready)
  have 1: "isEnabled ?w" and 2: "backend_quiet ?w"
    by (simp_all add: r session_ready)
  have 3: "stored ?w ITEMS_QUEUED_KEY = None \<or> stored ?w ITEMS_QUEUED_KEY = Some ''0''"
    by (simp add: r stored_store_put session_ready)
  show ?thesis
    using queued_items_balance [OF 1 2 3, of 2 3] queued_items_balance [OF 1 2 3, of 5 3]
    by simp
qed

text \<open>The Ledger looks at three members of the world only.\<close>

lemma ledger_view:
  assumes "enabled w' = enabled w" "appInsights w' = appInsights w" "sessionStorage w' = sessionStorage w"
  shows "isEnabled w' = isEnabled w" "backend_quiet w' = backend_quiet w"
    "reporter_quiet w' = reporter_quiet w" "stored w' = stored w" "counter_value w' = counter_value w"
  using assms
  by (simp_all add: isEnabled_def backend_quiet_def reporter_quiet_def stored_def counter_value_def
        fun_eq_iff)

lemma reporter_calls_view [simp]:
  "isEnabled (w\<lparr> reporter_calls := c \<rparr>) = isEnabled w"
  "backend_quiet (w\<lparr> reporter_calls := c \<rparr>) = backend_quiet w"
  "reporter_quiet (w\<lparr> reporter_calls := c \<rparr>) = reporter_quiet w"
  "stored (w\<lparr> reporter_calls := c \<rparr>) = stored w"
  "counter_value (w\<lparr> reporter_calls := c \<rparr>) = counter_value w"
  by (simp_all add: isEnabled_def backend_quiet_def reporter_quiet_def stored_def
        counter_value_def fun_eq_iff)

lemma store_put_view:
  assumes "sessionStorage w' = sessionStorage w"
  shows "sessionStorage (store_put k v w') = sessionStorage (store_put k v w)"
  using assms by (simp add: store_put_def split: option.splits)

lemma warnToConsole_ledger [simp]:
  "enabled (snd (warnToConsole t w)) = enabled w"
  "appInsights (snd (warnToConsole t w)) = appInsights w"
  "sessionStorage (snd (warnToConsole t w)) = sessionStorage w"
  "LIMIT_PER_SESSION (snd (warnToConsole t w)) = LIMIT_PER_SESSION w"
  "reporter_calls (snd (warnToConsole t w)) = reporter_calls w"
  by (simp_all add: warnToConsole_def call_console_def split: jsconsole.splits jsmethod.splits option.splits)

lemma logInternalMessage_ledger [simp]:
  "enabled (snd (logInternalMessage s m w)) = enabled w"
  "appInsights (snd (logInternalMessage s m w)) = appInsights w"
  "sessionStorage (snd (logInternalMessage s m w)) = sessionStorage w"
  "LIMIT_PER_SESSION (snd (logInternalMessage s m w)) = LIMIT_PER_SESSION w"
  "reporter_calls (snd (logInternalMessage s m w)) = reporter_calls w"
  by (simp_all add: log_defs)

lemma throwInternal_ledger [simp]:
  "enabled (snd (throwInternal p s m w)) = enabled w"
  "appInsights (snd (throwInternal p s m w)) = appInsights w"
  "sessionStorage (snd (throwInternal p s m w)) = sessionStorage w"
  "LIMIT_PER_SESSION (snd (throwInternal p s m w)) = LIMIT_PER_SESSION w"
  "reporter_calls (snd (throwInternal p s m w)) = reporter_calls w"
  by (cases rule: throwInternal_cases [where w = w and p = p and s = s and m = m]; simp)+

lemma reportLostItems_catch_ledger [simp]:
  "enabled (snd (reportLostItems_catch e w)) = enabled w"
  "appInsights (snd (reportLostItems_catch e w)) = appInsights w"
  "sessionStorage (snd (reportLostItems_catch e w)) = sessionStorage w"
  "LIMIT_PER_SESSION (snd (reportLostItems_catch e w)) = LIMIT_PER_SESSION w"
  "reporter_calls (snd (reportLostItems_catch e w)) = reporter_calls w"
  by (simp_all add: reportLostItems_catch_def new_InternalLogMessage_def Let_def
        throwInternalNonUserActionable_def)

text \<open>The \<open>finally\<close> block, on a ledger that is on and whose storage does not throw.\<close>

lemma finally_reset_ready:
  assumes "f w = (res, w1)" "isEnabled w1" "backend_quiet w1"
  shows "try_finally f (try_catch reset (\<lambda>e w. (Returns (), w))) w
           = (res, store_put ITEMS_QUEUED_KEY ''0'' w1)"
  using assms by (simp add: try_finally_def try_catch_def reset_ready)



text \<open>The \<open>try\<close> block when a report is due and the reporter throws.\<close>

lemma reportLostItems_try_throws:
  assumes "isEnabled w" "backend_quiet w"
    and "counter_value w ISSUES_REPORTED_KEY < LIMIT_PER_SESSION w"
    and "0 < counter_value w ITEMS_QUEUED_KEY"
    and "appInsights w = Some r"
    and "trackTrace r (dataLossMessage (counter_value w ITEMS_QUEUED_KEY)) \<noteq> None
         \<or> flush r \<noteq> None"
  shows "\<exists>e calls. reportLostItems_try w = (Throws e, w\<lparr> reporter_calls := calls \<rparr>)"
proof -
  let ?t = "dataLossMessage (counter_value w ITEMS_QUEUED_KEY)"
  let ?w1 = "w\<lparr> reporter_calls := reporter_calls w @ [TrackTrace ?t] \<rparr>"
  show ?thesis
  proof (cases "trackTrace r ?t")
    case (Some e)
    then have "appInsights_trackTrace ?t w = (Throws e, ?w1)"
      using assms(5) by (simp add: appInsights_trackTrace_def)
    then have "reportLostItems_try w = (Throws e, ?w1)"
      using assms(1-4)
      by (simp add: reportLostItems_try_def seq_def getIssuesReported_ready getNumberOfLostItems_ready)
    then show ?thesis by blast
  next
    case None
    then have t: "appInsights_trackTrace ?t w = (Returns (), ?w1)"
      using assms(5) by (simp add: appInsights_trackTrace_def)
    from None assms(6) obtain e where "flush r = Some e" by auto
    then have "appInsights_flush ?w1
        = (Throws e, w\<lparr> reporter_calls := reporter_calls w @ [TrackTrace ?t, Flush] \<rparr>)"
      using assms(5) by (simp add: appInsights_flush_def)
    then have "reportLostItems_try w
        = (Throws e, w\<lparr> reporter_calls := reporter_calls w @ [TrackTrace ?t, Flush] \<rparr>)"
      using assms(1-4) t
      by (simp add: reportLostItems_try_def seq_def getIssuesReported_ready getNumberOfLostItems_ready)
    then show ?thesis by blast
  qed
qed

lemma counter_value_put_zero:
  "isEnabled w \<Longrightarrow> counter_value (store_put k ''0'' w) k = 0"
  by (simp add: counter_value_def stored_store_put to_number_zero)



lemma reportLostItems_failed:
  assumes "isEnabled w" "backend_quiet w"
    and "counter_value w ISSUES_REPORTED_KEY < LIMIT_PER_SESSION w"
    and "0 < counter_value w ITEMS_QUEUED_KEY"
    and "appInsights w = Some r"
    and "trackTrace r (dataLossMessage (counter_value w ITEMS_QUEUED_KEY)) \<noteq> None
         \<or> flush r \<noteq> None"
  shows "\<exists>res w2. reportLostItems w = (res, store_put ITEMS_QUEUED_KEY ''0'' w2)
           \<and> enabled w2 = enabled w \<and> appInsights w2 = appInsights w
           \<and> sessionStorage w2 = sessionStorage w"
proof -
  from reportLostItems_try_throws [OF assms] obtain e calls
    where t: "reportLostItems_try w = (Throws e, w\<lparr> reporter_calls := calls \<rparr>)" by blast
  let ?w1 = "w\<lparr> reporter_calls := calls \<rparr>"
  obtain res w2 where c: "reportLostItems_catch e ?w1 = (res, w2)" by (cases "reportLostItems_catch e ?w1")
  then have w2: "w2 = snd (reportLostItems_catch e ?w1)" by simp
  have v: "enabled w2 = enabled w" "appInsights w2 = appInsights w" "sessionStorage w2 = sessionStorage w"
    by (simp_all add: w2)
  have tc: "try_catch reportLostItems_try reportLostItems_catch w = (res, w2)"
    using t c by (simp add: try_catch_def)
  have "isEnabled w2" "backend_quiet w2"
    using assms(1,2) ledger_view [OF v] by simp_all
  with tc have "reportLostItems w = (res, store_put ITEMS_QUEUED_KEY ''0'' w2)"
    unfolding reportLostItems_def by (rule finally_reset_ready)
  with v show ?thesis by blast
qed


lemma session_counters:
  "counter_value session ISSUES_REPORTED_KEY = 2" "counter_value session ITEMS_QUEUED_KEY = 3"
  by (simp_all add: counter_value_def stored_def session_def page_def num_defs
        ITEMS_QUEUED_KEY_def ISSUES_REPORTED_KEY_def)


text \<open>
  Claim C1, as amended.  With the Ledger on, a storage that does not throw,
  \<open>issuesReported\<close> under the limit and a positive lost-item count: when \<open>trackTrace\<close> or
  \<open>flush\<close> throws, the persisted \<open>issuesReported\<close> is left as it was (the failed report
  does not count against the limit), and \<open>itemsQueued\<close> is still reset to 0.
\<close>

theorem failed_report_not_counted:
  assumes "isEnabled w" and "backend_quiet w"
    and "fst (getIssuesReported w) = Returns issues" and "issues < LIMIT_PER_SESSION w"
    and "fst (getNumberOfLostItems w) = Returns lost" and "0 < lost"
    and "appInsights w = Some r"
    and "trackTrace r (dataLossMessage lost) \<noteq> None \<or> flush r \<noteq> None"
  shows "fst (getIssuesReported (snd (reportLostItems w))) = Returns issues
       \<and> stored (snd (reportLostItems w)) ISSUES_REPORTED_KEY = stored w ISSUES_REPORTED_KEY
       \<and> fst (getNumberOfLostItems (snd (reportLostItems w))) = Returns 0
       \<and> stored (snd (reportLostItems w)) ITEMS_QUEUED_KEY = Some ''0''"
proof -
  have i: "counter_value w ISSUES_REPORTED_KEY = issues"
    using assms(1,2,3) by (simp add: getIssuesReported_ready)
  have l: "counter_value w ITEMS_QUEUED_KEY = lost"
    using assms(1,2,5) by (simp add: getNumberOfLostItems_ready)
  from reportLostItems_failed [OF assms(1,2) _ _ assms(7)] assms(4,6,8) i l
  obtain res w2 where r: "reportLostItems w = (res, store_put ITEMS_QUEUED_KEY ''0'' w2)"
    and v: "enabled w2 = enabled w" "appInsights w2 = appInsights w"
      "sessionStorage w2 = sessionStorage w"
    by auto
  note lv = ledger_view [OF v]
  have e2: "isEnabled w2" "backend_quiet w2" using assms(1,2) lv by simp_all
  show ?thesis
    using e2 lv i
    by (simp add: r getIssuesReported_ready getNumberOfLostItems_ready counter_value_put
          counter_value_put_zero stored_store_put)
qed

lemma failing_reporter_ready:
  "isEnabled session_with_failing_reporter" "backend_quiet session_with_failing_reporter"
  "counter_value session_with_failing_reporter ISSUES_REPORTED_KEY = 2"
  "counter_value session_with_failing_reporter ITEMS_QUEUED_KEY = 3"
  "LIMIT_PER_SESSION session_with_failing_reporter = 10"
  "appInsights session_with_failing_reporter = Some \<lparr> trackTrace = failing_trackTrace, flush = None \<rparr>"
  using session_ready session_counters
  by (simp_all add: session_with_failing_reporter_def isEnabled_def backend_quiet_def
        counter_value_def stored_def session_def page_def)

theorem failed_report_not_counted_witness:
  "fst (getIssuesReported (snd (reportLostItems session_with_failing_reporter))) = Returns 2
   \<and> fst (getNumberOfLostItems (snd (reportLostItems session_with_failing_reporter))) = Returns 0"
proof -
  have i: "fst (getIssuesReported session_with_failing_reporter) = Returns 2"
    by (simp add: getIssuesReported_ready failing_reporter_ready)
  have l: "fst (getNumberOfLostItems session_with_failing_reporter) = Returns 3"
    by (simp add: getNumberOfLostItems_ready failing_reporter_ready)
  have t: "trackTrace \<lparr> trackTrace = failing_trackTrace, flush = None \<rparr> (dataLossMessage 3) \<noteq> None
       \<or> flush \<lparr> trackTrace = failing_trackTrace, flush = None \<rparr> \<noteq> None"
    by (simp add: failing_trackTrace_def)
  have "(2::int) < LIMIT_PER_SESSION session_with_failing_reporter" "(0::int) < 3"
    by (simp_all add: failing_reporter_ready)
  from failed_report_not_counted [OF failing_reporter_ready(1,2) i this(1) l this(2)
      failing_reporter_ready(6) t]
  show ?thesis by simp
qed

text \<open>
  Claim C1 as stated fails: the Ledger is on, two issues are reported out of ten, three
  items are lost and \<open>trackTrace\<close> throws; after \<open>reportLostItems\<close> the persisted
  \<open>issuesReported\<close> is still 2.
\<close>

theorem failed_report_counterexample:
  "isEnabled session_with_failing_reporter
   \<and> fst (getIssuesReported session_with_failing_reporter) = Returns 2
   \<and> 2 < LIMIT_PER_SESSION session_with_failing_reporter
   \<and> fst (getNumberOfLostItems session_with_failing_reporter) = Returns 3
   \<and> fst (appInsights_trackTrace (dataLossMessage 3) session_with_failing_reporter)
       = Throws (ThrownError ''report failed'')
   \<and> fst (getIssuesReported (snd (reportLostItems session_with_failing_reporter))) = Returns 2
   \<and> stored (snd (reportLostItems session_with_failing_reporter)) ISSUES_REPORTED_KEY = Some ''2''"
proof -
  let ?w = session_with_failing_reporter
  have t: "fst (appInsights_trackTrace (dataLossMessage 3) ?w) = Throws (ThrownError ''report failed'')"
    by (simp add: appInsights_trackTrace_def failing_reporter_ready failing_trackTrace_def)
  have "trackTrace \<lparr> trackTrace = failing_trackTrace, flush = None \<rparr>
          (dataLossMessage (counter_value ?w ITEMS_QUEUED_KEY)) \<noteq> None
       \<or> flush \<lparr> trackTrace = failing_trackTrace, flush = None \<rparr> \<noteq> None"
    by (simp add: failing_trackTrace_def)
  from reportLostItems_failed [OF failing_reporter_ready(1,2) _ _ failing_reporter_ready(6) this]
  obtain res w2 where r: "reportLostItems ?w = (res, store_put ITEMS_QUEUED_KEY ''0'' w2)"
    and v: "enabled w2 = enabled ?w" "appInsights w2 = appInsights ?w"
      "sessionStorage w2 = sessionStorage ?w"
    by (auto simp: failing_reporter_ready)
  note lv = ledger_view [OF v]
  have e2: "isEnabled w2" "backend_quiet w2" using failing_reporter_ready(1,2) lv by simp_all
  have s2: "stored ?w ISSUES_REPORTED_KEY = Some ''2''"
    by (simp add: stored_def session_with_failing_reporter_def session_def page_def)
  show ?thesis
    using e2 lv t s2
    by (simp add: r getIssuesReported_ready getNumberOfLostItems_ready counter_value_put
          stored_store_put failing_reporter_ready)
qed





text \<open>
  \<open>reset\<close> and \<open>getIssuesReported\<close> have no \<open>try\<close>/\<open>catch\<close> of their own: with the Ledger
  on and a storage that throws, the exception leaves them, while \<open>incrementItemsQueued\<close>
  and \<open>getNumberOfLostItems\<close> return.
\<close>

theorem storage_error_escapes_reset:
  "isEnabled session_with_failing_storage
   \<and> reset session_with_failing_storage
       = (Throws (ThrownError ''storage failed''), session_with_failing_storage)
   \<and> getIssuesReported session_with_failing_storage
       = (Throws (ThrownError ''storage failed''), session_with_failing_storage)
   \<and> incrementItemsQueued session_with_failing_storage = (Returns (), session_with_failing_storage)
   \<and> getNumberOfLostItems session_with_failing_storage = (Returns 0, session_with_failing_storage)"
  by (simp add: session_with_failing_storage_def session_def page_def isEnabled_def reset_def
        getIssuesReported_def incrementItemsQueued_def getNumberOfLostItems_def try_catch_def
        number_or_zero_def seq_def sessionStorage_getItem_def sessionStorage_setItem_def
        failing_getItem_def failing_setItem_def)






























end
